theory Spec2Isabelle
  imports Main "HOL-Library.Char_ord" "HOL-Library.List_Lexorder" "HOL-Library.Multiset"
begin

section \<open>Data model\<close>

text \<open>
  The interfaces \<^verbatim>\<open>Tag\<close>, \<^verbatim>\<open>TagGroup\<close> and \<^verbatim>\<open>ImageItem\<close> of the source. The optional
  fields \<^verbatim>\<open>groupId?\<close> and \<^verbatim>\<open>isTimeTag?\<close> are options: \<open>None\<close> is JavaScript's
  \<^verbatim>\<open>undefined\<close>. A string is a list of code units; the model covers the code units
  below 256. Field names carry a prefix where two interfaces share a name.
\<close>

record Tag =
  tag_id :: string
  tag_name :: string
  groupId :: "string option"
  isTimeTag :: "bool option"

record TagGroup =
  group_id :: string
  group_name :: string
  group_tags :: "Tag list"

record ImageItem =
  image_id :: string
  uri :: string
  tags :: "Tag list"

text \<open>Truthiness of an optional boolean: \<^verbatim>\<open>undefined\<close> and \<^verbatim>\<open>false\<close> are falsy.\<close>

fun truthy :: "bool option \<Rightarrow> bool" where
  "truthy (Some b) = b"
| "truthy None = False"

section \<open>Strings and numbers\<close>

text \<open>
  \<^verbatim>\<open>Number.prototype.toString\<close> on a non-negative integer: its decimal digits, most
  significant first. Counters and clock readings are natural numbers (the source's doubles
  are exact on every value a device can reach).
\<close>

definition digitChar :: "nat \<Rightarrow> char" where
  "digitChar d = ''0123456789'' ! d"

fun toString :: "nat \<Rightarrow> string" where
  "toString n = (if n < 10 then [digitChar n] else toString (n div 10) @ [digitChar (n mod 10)])"

declare toString.simps [simp del]

text \<open>\<^verbatim>\<open>Array.prototype.join\<close> on a list of strings.\<close>

fun join :: "string list \<Rightarrow> string \<Rightarrow> string" where
  "join [] sep = []"
| "join [x] sep = x"
| "join (x # y # ys) sep = x @ sep @ join (y # ys) sep"

section \<open>Unique file names (app/index.tsx, generateUniqueFileName)\<close>

text \<open>
  The used-name set is a JavaScript \<^verbatim>\<open>Set\<close>: a finite collection in insertion order
  without duplicates, here a list with \<open>has\<close> and \<open>add\<close>.
\<close>

definition has :: "string list \<Rightarrow> string \<Rightarrow> bool" where
  "has usedNames x = (x \<in> set usedNames)"

definition add :: "string list \<Rightarrow> string \<Rightarrow> string list" where
  "add usedNames x = (if x \<in> set usedNames then usedNames else usedNames @ [x])"

text \<open>The template literal \<^verbatim>\<open>`${baseFileName}_${counter}`\<close>.\<close>

definition suffixed :: "string \<Rightarrow> nat \<Rightarrow> string" where
  "suffixed baseFileName counter = baseFileName @ ''_'' @ toString counter"

lemma digitChar_inj: "a < 10 \<Longrightarrow> b < 10 \<Longrightarrow> digitChar a = digitChar b \<Longrightarrow> a = b"
proof -
  assume a: "a < 10" and b: "b < 10" and e: "digitChar a = digitChar b"
  have d: "distinct ''0123456789''" by simp
  from a b e show "a = b"
    unfolding digitChar_def by (subst (asm) nth_eq_iff_index_eq [OF d]) simp_all
qed

lemma toString_nonempty: "toString n \<noteq> []"
  by (subst toString.simps) simp

lemma toString_inj: "toString n = toString m \<Longrightarrow> n = m"
proof (induction n arbitrary: m rule: toString.induct)
  case (1 n)
  show ?case
  proof (cases "n < 10")
    case small: True
    show ?thesis
    proof (cases "m < 10")
      case True
      with small "1.prems" show ?thesis
        by (simp add: toString.simps [of n] toString.simps [of m] digitChar_inj)
    next
      case False
      with small "1.prems" toString_nonempty [of "m div 10"] show ?thesis
        by (simp add: toString.simps [of n] toString.simps [of m])
    qed
  next
    case big: False
    show ?thesis
    proof (cases "m < 10")
      case True
      with big "1.prems" toString_nonempty [of "n div 10"] show ?thesis
        by (simp add: toString.simps [of n] toString.simps [of m])
    next
      case False
      with big "1.prems" have e: "toString (n div 10) = toString (m div 10)"
        and d: "digitChar (n mod 10) = digitChar (m mod 10)"
        by (simp_all add: toString.simps [of n] toString.simps [of m])
      from "1.IH" [OF big e] have q: "n div 10 = m div 10" .
      from d have r: "n mod 10 = m mod 10" by (simp add: digitChar_inj)
      from q r show ?thesis by (metis div_mult_mod_eq)
    qed
  qed
qed

lemma suffixed_inj: "suffixed b j = suffixed b k \<Longrightarrow> j = k"
  by (simp add: suffixed_def toString_inj)

lemma finite_suffixes_used: "finite {k. suffixed b k \<in> set usedNames}"
proof -
  have "inj (suffixed b)" by (rule injI) (rule suffixed_inj)
  then have "finite (suffixed b -` set usedNames)" by (rule finite_vimageI [rotated]) simp
  then show ?thesis by (simp add: vimage_def)
qed

text \<open>
  The \<^verbatim>\<open>while (usedNames.has(fileName))\<close> loop, on its two variables. It ends because the
  suffixed names are pairwise different and the set is finite.
\<close>

function uniqueLoop :: "string list \<Rightarrow> string \<Rightarrow> string \<Rightarrow> nat \<Rightarrow> string" where
  "uniqueLoop usedNames baseFileName fileName counter =
     (if has usedNames fileName
      then uniqueLoop usedNames baseFileName (suffixed baseFileName counter) (counter + 1)
      else fileName)"
  by pat_completeness auto
termination
proof (relation "measure (\<lambda>(usedNames, baseFileName, fileName, counter).
         card {k. counter \<le> k \<and> suffixed baseFileName k \<in> set usedNames}
         + (if fileName \<in> set usedNames then 1 else 0))")
  show "wf (measure (\<lambda>(usedNames, baseFileName, fileName, counter).
         card {k. counter \<le> k \<and> suffixed baseFileName k \<in> set usedNames}
         + (if fileName \<in> set usedNames then 1 else 0)))" by simp
next
  fix usedNames :: "string list" and baseFileName fileName :: string and counter :: nat
  assume h: "has usedNames fileName"
  let ?A = "\<lambda>c. {k. c \<le> k \<and> suffixed baseFileName k \<in> set usedNames}"
  have fin: "finite (?A counter)"
    by (rule finite_subset [OF _ finite_suffixes_used [of baseFileName usedNames]]) auto
  show "((usedNames, baseFileName, suffixed baseFileName counter, counter + 1),
         (usedNames, baseFileName, fileName, counter))
        \<in> measure (\<lambda>(usedNames, baseFileName, fileName, counter).
            card {k. counter \<le> k \<and> suffixed baseFileName k \<in> set usedNames}
            + (if fileName \<in> set usedNames then 1 else 0))"
  proof (cases "suffixed baseFileName counter \<in> set usedNames")
    case True
    have "?A counter = insert counter (?A (counter + 1))"
      using True by (auto simp: le_Suc_eq)
    moreover have "counter \<notin> ?A (counter + 1)" by simp
    moreover have "finite (?A (counter + 1))"
      by (rule finite_subset [OF _ fin]) auto
    ultimately have "card (?A counter) = Suc (card (?A (counter + 1)))"
      by (simp del: One_nat_def)
    with True h show ?thesis by (simp add: has_def)
  next
    case False
    have "k \<noteq> counter" if "suffixed baseFileName k \<in> set usedNames" for k
      using that False by auto
    then have "?A (counter + 1) = ?A counter"
      by (auto simp: Suc_le_eq order_le_less)
    with False h show ?thesis by (simp add: has_def)
  qed
qed

declare uniqueLoop.simps [simp del]

text \<open>
  \<^verbatim>\<open>generateUniqueFileName(tags, usedNames)\<close>. The clock reading \<open>now\<close> is what
  \<^verbatim>\<open>Date.now()\<close> returns in this call. The result is the returned name and the set as the
  call leaves it: the branch for an image without tags returns before \<^verbatim>\<open>usedNames.add\<close>.
\<close>

definition baseFileNameOf :: "Tag list \<Rightarrow> string" where
  "baseFileNameOf ts = join (map tag_name ts) ''_''"

definition generateUniqueFileName :: "nat \<Rightarrow> Tag list \<Rightarrow> string list \<Rightarrow> string \<times> string list" where
  "generateUniqueFileName now ts usedNames =
     (if length ts = 0 then (''image_'' @ toString now, usedNames)
      else
        let baseFileName = baseFileNameOf ts;
            fileName = uniqueLoop usedNames baseFileName baseFileName 1
        in (fileName, add usedNames fileName))"

section \<open>The export pipeline (app/index.tsx, exportImages)\<close>

text \<open>
  The device services are outside the repository. Each call the pipeline awaits either
  returns or throws; what it does is read from an environment, so that every outcome the
  code can meet is an input of the model. The per-image calls are indexed by the position
  of the image in \<^verbatim>\<open>images\<close>, the attach call by the batch index.
\<close>

datatype 'a call = Returns 'a | Throws

text \<open>What \<^verbatim>\<open>createAssetAsync\<close> gives back: an asset, a falsy value, or an exception.\<close>

datatype creation = Created | NoAsset | CreateThrows

record Asset =
  assetFile :: string
  assetSource :: string

record Env =
  cacheDirectory :: string
  requestPermissionsAsync :: "bool call"
  getAlbumAsync :: "Asset list option call"
  seedCopyAsync :: bool
  seedCreateAssetAsync :: bool
  createAlbumAsync :: bool
  seedDeleteAsync :: bool
  clock :: "nat \<Rightarrow> nat"
  copyAsync :: "nat \<Rightarrow> bool"
  createAssetAsync :: "nat \<Rightarrow> creation"
  deleteAsync :: "nat \<Rightarrow> bool"
  addAssetsToAlbumAsync :: "nat \<Rightarrow> bool"

text \<open>
  The state the pipeline changes: the used-name set, the files it has staged in the cache
  directory and not deleted (path to the uri copied there), the assets it has created in
  the photo library, the album (\<open>None\<close> while it does not exist) and the counter
  \<^verbatim>\<open>processedCount\<close>.
\<close>

record ExportState =
  usedNames :: "string list"
  staged :: "string \<rightharpoonup> string"
  createdAssets :: "Asset list"
  album :: "Asset list option"
  processedCount :: nat

definition initialState :: ExportState where
  "initialState = \<lparr>usedNames = [], staged = Map.empty, createdAssets = [], album = None,
     processedCount = 0\<rparr>"

text \<open>
  How an invocation ends: the toast it shows. \<open>Exported\<close> carries \<^verbatim>\<open>processedCount\<close> and
  \<^verbatim>\<open>images.length\<close>, the exported and the total count.
\<close>

datatype ExportResult =
  NoImages | PermissionDenied | AlbumCreationFailed | ExportFailed | Exported nat nat

definition BATCH_SIZE :: nat where
  "BATCH_SIZE = 10"

text \<open>\<^verbatim>\<open>Array.prototype.slice(start, end)\<close> for \<open>start \<le> end \<le> length\<close>.\<close>

definition slice :: "'a list \<Rightarrow> nat \<Rightarrow> nat \<Rightarrow> 'a list" where
  "slice xs startIndex endIndex = take (endIndex - startIndex) (drop startIndex xs)"

text \<open>
  The body of \<^verbatim>\<open>for (const img of batchImages)\<close>: one \<^verbatim>\<open>try\<close> block whose \<^verbatim>\<open>catch\<close> logs
  and continues. A call that throws leaves the statements after it undone.
\<close>

definition processImage :: "Env \<Rightarrow> nat \<Rightarrow> ImageItem \<Rightarrow> ExportState \<times> Asset list
    \<Rightarrow> ExportState \<times> Asset list" where
  "processImage env i img acc =
     (let (st, batchAssets) = acc;
          (fileName, usedNames') = generateUniqueFileName (clock env i) (tags img) (usedNames st);
          tempFile = cacheDirectory env @ fileName @ ''.jpg'';
          st1 = st\<lparr>usedNames := usedNames'\<rparr>
      in if \<not> copyAsync env i then (st1, batchAssets)
         else
           let st2 = st1\<lparr>staged := (staged st1)(tempFile \<mapsto> uri img)\<rparr>;
               asset = \<lparr>assetFile = tempFile, assetSource = uri img\<rparr>
           in case createAssetAsync env i of
                CreateThrows \<Rightarrow> (st2, batchAssets)
              | NoAsset \<Rightarrow>
                  if \<not> deleteAsync env i then (st2, batchAssets)
                  else (st2\<lparr>staged := (staged st2)(tempFile := None),
                            processedCount := processedCount st2 + 1\<rparr>, batchAssets)
              | Created \<Rightarrow>
                  let st3 = st2\<lparr>createdAssets := createdAssets st2 @ [asset]\<rparr>
                  in if \<not> deleteAsync env i then (st3, batchAssets @ [asset])
                     else (st3\<lparr>staged := (staged st3)(tempFile := None),
                               processedCount := processedCount st3 + 1\<rparr>,
                           batchAssets @ [asset]))"

fun processBatch :: "Env \<Rightarrow> nat \<Rightarrow> ImageItem list \<Rightarrow> ExportState \<times> Asset list
    \<Rightarrow> ExportState \<times> Asset list" where
  "processBatch env i [] acc = acc"
| "processBatch env i (img # batchImages) acc =
     processBatch env (Suc i) batchImages (processImage env i img acc)"

text \<open>Attaching a batch: skipped when the batch has no asset, logged when it throws.\<close>

definition attachBatch :: "Env \<Rightarrow> nat \<Rightarrow> Asset list \<Rightarrow> ExportState \<Rightarrow> ExportState" where
  "attachBatch env batchIndex batchAssets st =
     (if length batchAssets > 0 \<and> addAssetsToAlbumAsync env batchIndex
      then st\<lparr>album := map_option (\<lambda>assets. assets @ batchAssets) (album st)\<rparr>
      else st)"

function batchLoop :: "Env \<Rightarrow> ImageItem list \<Rightarrow> nat \<Rightarrow> nat \<Rightarrow> ExportState \<Rightarrow> ExportState" where
  "batchLoop env images totalBatches batchIndex st =
     (if batchIndex < totalBatches
      then
        let startIndex = batchIndex * BATCH_SIZE;
            endIndex = min (startIndex + BATCH_SIZE) (length images);
            batchImages = slice images startIndex endIndex;
            (st1, batchAssets) = processBatch env startIndex batchImages (st, [])
        in batchLoop env images totalBatches (batchIndex + 1)
             (attachBatch env batchIndex batchAssets st1)
      else st)"
  by pat_completeness auto
termination
  by (relation "measure (\<lambda>(env, images, totalBatches, batchIndex, st). totalBatches - batchIndex)")
    auto

declare batchLoop.simps [simp del]

text \<open>
  Creating the album when it does not exist: \<^verbatim>\<open>images[0]\<close> is copied to
  \<^verbatim>\<open>album_init.jpg\<close>, an asset is made from it and the album is created with that asset. Any
  of the four calls throwing ends in the \<^verbatim>\<open>catch\<close> that reports the failure and returns.
  \<open>Inl\<close> is that return.
\<close>

definition seedAlbum :: "Env \<Rightarrow> ImageItem \<Rightarrow> ExportState \<Rightarrow> ExportState + ExportState" where
  "seedAlbum env first st =
     (let tempFile = cacheDirectory env @ ''album_init.jpg''
      in if \<not> seedCopyAsync env then Inl st
         else
           let st1 = st\<lparr>staged := (staged st)(tempFile \<mapsto> uri first)\<rparr>
           in if \<not> seedCreateAssetAsync env then Inl st1
              else
                let initialAsset = \<lparr>assetFile = tempFile, assetSource = uri first\<rparr>;
                    st2 = st1\<lparr>createdAssets := createdAssets st1 @ [initialAsset]\<rparr>
                in if \<not> createAlbumAsync env then Inl st2
                   else
                     let st3 = st2\<lparr>album := Some [initialAsset]\<rparr>
                     in if \<not> seedDeleteAsync env then Inl st3
                        else Inr (st3\<lparr>staged := (staged st3)(tempFile := None)\<rparr>))"

text \<open>\<^verbatim>\<open>Math.ceil(images.length / BATCH_SIZE)\<close> on natural numbers.\<close>

definition totalBatchesOf :: "ImageItem list \<Rightarrow> nat" where
  "totalBatchesOf images = (length images + BATCH_SIZE - 1) div BATCH_SIZE"

definition runBatches :: "Env \<Rightarrow> ImageItem list \<Rightarrow> ExportState \<Rightarrow> ExportResult \<times> ExportState" where
  "runBatches env images st =
     (let st' = batchLoop env images (totalBatchesOf images) 0 st
      in (Exported (processedCount st') (length images), st'))"

definition exportImages :: "Env \<Rightarrow> ImageItem list \<Rightarrow> ExportResult \<times> ExportState" where
  "exportImages env images =
     (case images of
        [] \<Rightarrow> (NoImages, initialState)
      | first # _ \<Rightarrow>
          (case requestPermissionsAsync env of
             Throws \<Rightarrow> (ExportFailed, initialState)
           | Returns granted \<Rightarrow>
               if \<not> granted then (PermissionDenied, initialState)
               else
                 (case getAlbumAsync env of
                    Throws \<Rightarrow> (ExportFailed, initialState)
                  | Returns (Some assets) \<Rightarrow>
                      runBatches env images (initialState\<lparr>album := Some assets\<rparr>)
                  | Returns None \<Rightarrow>
                      (case seedAlbum env first initialState of
                         Inl st \<Rightarrow> (AlbumCreationFailed, st)
                       | Inr st \<Rightarrow> runBatches env images st))))"

section \<open>The tag selection model (TagModal)\<close>

text \<open>
  The component state the operations read and write, and the two persisted documents
  (\<^verbatim>\<open>AsyncStorage\<close> keys \<^verbatim>\<open>images\<close> and \<^verbatim>\<open>tagGroups\<close>).
\<close>

record TagModal =
  tagGroups :: "TagGroup list"
  selectedTags :: "Tag list"
  timeTag :: string

record Store =
  images_doc :: "ImageItem list"
  tagGroups_doc :: "TagGroup list"

text \<open>
  \<^verbatim>\<open>String.prototype.trim\<close>: white space and line terminators are removed at both ends.
  Below 256 these are the code units 9 to 13, 32 and 160.
\<close>

definition isWhiteSpace :: "char \<Rightarrow> bool" where
  "isWhiteSpace c = (of_char c \<in> {9, 10, 11, 12, 13, 32, 160 :: nat})"

definition trim :: "string \<Rightarrow> string" where
  "trim s = rev (dropWhile isWhiteSpace (rev (dropWhile isWhiteSpace s)))"

text \<open>\<^verbatim>\<open>Array.prototype.findIndex\<close>: the first index whose element passes, or -1.\<close>

fun findIndex :: "('a \<Rightarrow> bool) \<Rightarrow> 'a list \<Rightarrow> int" where
  "findIndex p [] = -1"
| "findIndex p (x # xs) =
     (if p x then 0 else (let r = findIndex p xs in if r < 0 then -1 else r + 1))"

text \<open>\<^verbatim>\<open>addTimeTag\<close>; \<open>now\<close> is the reading of \<^verbatim>\<open>Date.now()\<close>.\<close>

definition addTimeTag :: "nat \<Rightarrow> TagModal \<Rightarrow> TagModal" where
  "addTimeTag now st =
     (if trim (timeTag st) = [] then st
      else
        let timeTagObject = \<lparr>tag_id = ''time-'' @ toString now, tag_name = timeTag st,
              groupId = None, isTimeTag = Some True\<rparr>;
            existingTimeTagIndex = findIndex (\<lambda>tag. truthy (isTimeTag tag)) (selectedTags st);
            newSelectedTags =
              (if existingTimeTagIndex \<ge> 0
               then (selectedTags st)[nat existingTimeTagIndex := timeTagObject]
               else selectedTags st @ [timeTagObject])
        in st\<lparr>selectedTags := newSelectedTags, timeTag := []\<rparr>)"

definition toggleTag :: "string \<Rightarrow> Tag \<Rightarrow> TagModal \<Rightarrow> TagModal" where
  "toggleTag gid tag st =
     (let isSelected = list_ex (\<lambda>t. tag_id t = tag_id tag) (selectedTags st);
          newSelectedTags =
            (if isSelected then filter (\<lambda>t. tag_id t \<noteq> tag_id tag) (selectedTags st)
             else selectedTags st @ [tag\<lparr>groupId := Some gid\<rparr>])
      in st\<lparr>selectedTags := newSelectedTags\<rparr>)"

text \<open>
  \<^verbatim>\<open>Array.prototype.sort(compareFn)\<close>. The language requires a stable sort; for a comparator
  that is a consistent ordering the stable sorted arrangement is unique, and insertion from
  the right computes it.
\<close>

fun insertBy :: "('a \<Rightarrow> 'a \<Rightarrow> int) \<Rightarrow> 'a \<Rightarrow> 'a list \<Rightarrow> 'a list" where
  "insertBy compareFn x [] = [x]"
| "insertBy compareFn x (y # ys) =
     (if compareFn x y \<le> 0 then x # y # ys else y # insertBy compareFn x ys)"

definition sortBy :: "('a \<Rightarrow> 'a \<Rightarrow> int) \<Rightarrow> 'a list \<Rightarrow> 'a list" where
  "sortBy compareFn xs = foldr (insertBy compareFn) xs []"

text \<open>
  The comparator of \<^verbatim>\<open>handleSave\<close>. \<open>localeCompare\<close> stands for
  \<^verbatim>\<open>a.localeCompare(b, "zh-CN")\<close>, whose collation belongs to the platform.
\<close>

definition compareTags :: "(string \<Rightarrow> string \<Rightarrow> int) \<Rightarrow> Tag \<Rightarrow> Tag \<Rightarrow> int" where
  "compareTags localeCompare a b =
     (if truthy (isTimeTag a) \<and> \<not> truthy (isTimeTag b) then -1
      else if \<not> truthy (isTimeTag a) \<and> truthy (isTimeTag b) then 1
      else localeCompare (tag_name a) (tag_name b))"

text \<open>\<^verbatim>\<open>handleSave\<close>: the list passed to \<^verbatim>\<open>onUpdateTags\<close>.\<close>

definition handleSave :: "(string \<Rightarrow> string \<Rightarrow> int) \<Rightarrow> TagModal \<Rightarrow> Tag list" where
  "handleSave localeCompare st = sortBy (compareTags localeCompare) (selectedTags st)"

text \<open>
  One collation to run the comparator with: the order of the code units, which is what
  \<^verbatim>\<open>localeCompare\<close> gives on digits and on unaccented letters of one case.
\<close>

definition codeUnitCompare :: "string \<Rightarrow> string \<Rightarrow> int" where
  "codeUnitCompare a b = (if a < b then -1 else if a = b then 0 else 1)"

text \<open>
  \<^verbatim>\<open>saveTagGroups\<close> writes the document and then sets the component state; when the write
  throws, neither changes.
\<close>

definition saveTagGroups :: "bool \<Rightarrow> TagGroup list \<Rightarrow> TagModal \<times> Store \<Rightarrow> TagModal \<times> Store" where
  "saveTagGroups writeOk groups acc =
     (let (st, store) = acc
      in if writeOk then (st\<lparr>tagGroups := groups\<rparr>, store\<lparr>tagGroups_doc := groups\<rparr>)
         else (st, store))"

text \<open>
  \<^verbatim>\<open>deleteTag\<close> of the modal that also manages the catalog. \<open>confirmed\<close> is the answer to the
  alert: the handler runs only on the confirming button.
\<close>

definition deleteTag :: "bool \<Rightarrow> bool \<Rightarrow> string \<Rightarrow> string \<Rightarrow> TagModal \<times> Store
    \<Rightarrow> TagModal \<times> Store" where
  "deleteTag confirmed writeOk gid tagId acc =
     (if \<not> confirmed then acc
      else
        let (st, store) = acc;
            updatedGroups = map (\<lambda>group.
              if group_id group = gid
              then group\<lparr>group_tags := filter (\<lambda>tag. tag_id tag \<noteq> tagId) (group_tags group)\<rparr>
              else group) (tagGroups st);
            (st1, store1) = saveTagGroups writeOk updatedGroups (st, store)
        in (st1\<lparr>selectedTags := filter (\<lambda>tag. tag_id tag \<noteq> tagId) (selectedTags st)\<rparr>, store1))"

text \<open>The time-tag exclusivity invariant: at most one selected tag is a time tag.\<close>

definition timeTagsOf :: "Tag list \<Rightarrow> Tag list" where
  "timeTagsOf ts = filter (\<lambda>tag. truthy (isTimeTag tag)) ts"

definition exclusive :: "Tag list \<Rightarrow> bool" where
  "exclusive ts = (length (timeTagsOf ts) \<le> 1)"

section \<open>Vocabulary of the statements\<close>

text \<open>
  Image \<open>i\<close> yields an asset when its copy and the asset creation succeed; it is counted in
  \<^verbatim>\<open>processedCount\<close> when no call of its \<^verbatim>\<open>try\<close> block throws; its staged file is released
  when nothing was staged or the deletion was reached and succeeded.
\<close>

definition assetCreated :: "Env \<Rightarrow> nat \<Rightarrow> bool" where
  "assetCreated env i = (copyAsync env i \<and> createAssetAsync env i = Created)"

definition counted :: "Env \<Rightarrow> nat \<Rightarrow> bool" where
  "counted env i =
     (copyAsync env i \<and> createAssetAsync env i \<noteq> CreateThrows \<and> deleteAsync env i)"

definition released :: "Env \<Rightarrow> nat \<Rightarrow> bool" where
  "released env i =
     (\<not> copyAsync env i \<or> (createAssetAsync env i \<noteq> CreateThrows \<and> deleteAsync env i))"

text \<open>The path image \<open>i\<close> is staged at, and the asset the album is created with.\<close>

definition tempFileOf :: "Env \<Rightarrow> nat \<Rightarrow> ImageItem \<Rightarrow> ExportState \<Rightarrow> string" where
  "tempFileOf env i img st =
     cacheDirectory env @ fst (generateUniqueFileName (clock env i) (tags img) (usedNames st)) @ ''.jpg''"

definition seedAsset :: "Env \<Rightarrow> ImageItem \<Rightarrow> Asset" where
  "seedAsset env first = \<lparr>assetFile = cacheDirectory env @ ''album_init.jpg'', assetSource = uri first\<rparr>"

section \<open>Sample inputs\<close>

text \<open>
  A device on which every call succeeds and the album exists, a catalog tag and a photo
  that carries it. The examples change single fields of these.
\<close>

definition allCallsSucceed :: Env where
  "allCallsSucceed = \<lparr>cacheDirectory = ''file:///cache/'',
     requestPermissionsAsync = Returns True, getAlbumAsync = Returns (Some []),
     seedCopyAsync = True, seedCreateAssetAsync = True, createAlbumAsync = True,
     seedDeleteAsync = True, clock = (\<lambda>i. 1718000000000), copyAsync = (\<lambda>i. True),
     createAssetAsync = (\<lambda>i. Created), deleteAsync = (\<lambda>i. True),
     addAssetsToAlbumAsync = (\<lambda>b. True)\<rparr>"

definition momTag :: Tag where
  "momTag = \<lparr>tag_id = ''t1'', tag_name = ''Mom'', groupId = Some ''g1'', isTimeTag = None\<rparr>"

definition momPhoto :: "string \<Rightarrow> ImageItem" where
  "momPhoto n = \<lparr>image_id = n, uri = ''file:///photos/'' @ n @ ''.jpg'', tags = [momTag]\<rparr>"




section \<open>Unique file names: what a call returns\<close>

lemma uniqueLoop_keep: "\<not> has used f \<Longrightarrow> uniqueLoop used b f c = f"
  by (subst uniqueLoop.simps) simp

lemma uniqueLoop_step:
  "has used f \<Longrightarrow> uniqueLoop used b f c = uniqueLoop used b (suffixed b c) (c + 1)"
  by (subst uniqueLoop.simps) simp

lemma uniqueLoop_fresh: "\<not> has used (uniqueLoop used b f c)"
proof (induction used b f c rule: uniqueLoop.induct)
  case (1 used b f c)
  show ?case
  proof (cases "has used f")
    case True
    with "1.IH" show ?thesis by (simp add: uniqueLoop_step)
  next
    case False
    then show ?thesis by (simp add: uniqueLoop_keep)
  qed
qed

lemma uniqueLoop_first:
  "has used f \<Longrightarrow>
   \<exists>k\<ge>c. uniqueLoop used b f c = suffixed b k \<and> (\<forall>j. c \<le> j \<and> j < k \<longrightarrow> has used (suffixed b j))"
proof (induction used b f c rule: uniqueLoop.induct)
  case (1 used b f c)
  show ?case
  proof (cases "has used (suffixed b c)")
    case True
    from "1.IH" [OF "1.prems" True] obtain k where k: "c + 1 \<le> k"
      "uniqueLoop used b (suffixed b c) (c + 1) = suffixed b k"
      "\<forall>j. c + 1 \<le> j \<and> j < k \<longrightarrow> has used (suffixed b j)" by blast
    have j: "\<forall>j. c \<le> j \<and> j < k \<longrightarrow> has used (suffixed b j)"
    proof (intro allI impI)
      fix j assume "c \<le> j \<and> j < k"
      then have "j = c \<or> (c + 1 \<le> j \<and> j < k)" by auto
      with True k(3) show "has used (suffixed b j)" by blast
    qed
    from k(1) have ck: "c \<le> k" by simp
    from "1.prems" k(2) have "uniqueLoop used b f c = suffixed b k"
      by (simp add: uniqueLoop_step)
    with ck j show ?thesis by blast
  next
    case False
    with "1.prems" have "uniqueLoop used b f c = suffixed b c"
      by (simp add: uniqueLoop_step uniqueLoop_keep)
    then show ?thesis by (intro exI [of _ c]) auto
  qed
qed

lemma toString_digit: "n < 10 \<Longrightarrow> toString n = [digitChar n]"
  by (subst toString.simps) simp

lemma suffixed_1: "suffixed b (Suc 0) = b @ ''_1''"
  by (simp add: suffixed_def toString_digit digitChar_def)
lemma suffixed_2: "suffixed b (Suc (Suc 0)) = b @ ''_2''"
  by (simp add: suffixed_def toString_digit digitChar_def)

text \<open>
  Claim C1. A call for an image with tags returns a name that was not in the used-name set
  and adds it to the set. The name is the base name when that is unused; otherwise it is the
  base name with the suffix \<open>_k\<close> for the first \<open>k = 1, 2, \<dots>\<close> whose suffixed name
  is unused. Three images whose base name is \<open>Mom\<close>, named in order from the empty set,
  get \<open>Mom\<close>, \<open>Mom_1\<close>, \<open>Mom_2\<close>.
\<close>

theorem generateUniqueFileName_first_unused:
  "(ts \<noteq> [] \<and> generateUniqueFileName now ts used = (fileName, used') \<longrightarrow>
      \<not> has used fileName \<and> used' = add used fileName \<and> has used' fileName \<and>
      (\<not> has used (baseFileNameOf ts) \<longrightarrow> fileName = baseFileNameOf ts) \<and>
      (has used (baseFileNameOf ts) \<longrightarrow>
        (\<exists>k\<ge>1. fileName = suffixed (baseFileNameOf ts) k \<and>
           (\<forall>j. 1 \<le> j \<and> j < k \<longrightarrow> has used (suffixed (baseFileNameOf ts) j)))))
   \<and>
   (ts1 \<noteq> [] \<and> ts2 \<noteq> [] \<and> ts3 \<noteq> [] \<and>
    baseFileNameOf ts1 = ''Mom'' \<and> baseFileNameOf ts2 = ''Mom'' \<and> baseFileNameOf ts3 = ''Mom'' \<longrightarrow>
      (let (n1, u1) = generateUniqueFileName now1 ts1 [];
           (n2, u2) = generateUniqueFileName now2 ts2 u1;
           (n3, u3) = generateUniqueFileName now3 ts3 u2
       in [n1, n2, n3]) = [''Mom'', ''Mom_1'', ''Mom_2''])"
proof (rule conjI; rule impI)
  assume h: "ts \<noteq> [] \<and> generateUniqueFileName now ts used = (fileName, used')"
  let ?b = "baseFileNameOf ts"
  from h have f: "fileName = uniqueLoop used ?b ?b 1" and u: "used' = add used fileName"
    by (auto simp add: generateUniqueFileName_def Let_def)
  from f have 1: "\<not> has used fileName" by (simp add: uniqueLoop_fresh)
  from u have 2: "has used' fileName" by (simp add: has_def add_def)
  from f have 3: "\<not> has used ?b \<longrightarrow> fileName = ?b" by (simp add: uniqueLoop_keep)
  from f uniqueLoop_first [of used ?b 1 ?b]
  have 4: "has used ?b \<longrightarrow>
        (\<exists>k\<ge>1. fileName = suffixed ?b k \<and> (\<forall>j. 1 \<le> j \<and> j < k \<longrightarrow> has used (suffixed ?b j)))"
    by simp
  from 1 u 2 3 4 show "\<not> has used fileName \<and> used' = add used fileName \<and> has used' fileName \<and>
      (\<not> has used ?b \<longrightarrow> fileName = ?b) \<and>
      (has used ?b \<longrightarrow>
        (\<exists>k\<ge>1. fileName = suffixed ?b k \<and>
           (\<forall>j. 1 \<le> j \<and> j < k \<longrightarrow> has used (suffixed ?b j))))"
    by (intro conjI)
next
  assume a: "ts1 \<noteq> [] \<and> ts2 \<noteq> [] \<and> ts3 \<noteq> [] \<and>
    baseFileNameOf ts1 = ''Mom'' \<and> baseFileNameOf ts2 = ''Mom'' \<and> baseFileNameOf ts3 = ''Mom''"
  from a have 1: "generateUniqueFileName now1 ts1 [] = (''Mom'', [''Mom''])"
    by (simp add: generateUniqueFileName_def uniqueLoop_keep has_def add_def Let_def)
  from a have 2: "generateUniqueFileName now2 ts2 [''Mom''] = (''Mom_1'', [''Mom'', ''Mom_1''])"
    by (simp add: generateUniqueFileName_def uniqueLoop_step uniqueLoop_keep has_def add_def Let_def
        suffixed_1)
  from a have 3: "generateUniqueFileName now3 ts3 [''Mom'', ''Mom_1''] = (''Mom_2'', [''Mom'', ''Mom_1'', ''Mom_2''])"
    by (simp add: generateUniqueFileName_def uniqueLoop_step uniqueLoop_keep has_def add_def Let_def
        suffixed_1 suffixed_2)
  show "(let (n1, u1) = generateUniqueFileName now1 ts1 [];
           (n2, u2) = generateUniqueFileName now2 ts2 u1;
           (n3, u3) = generateUniqueFileName now3 ts3 u2
       in [n1, n2, n3]) = [''Mom'', ''Mom_1'', ''Mom_2'']"
    by (simp add: 1 2 3)
qed

theorem generateUniqueFileName_first_unused_witness:
  "[\<lparr>tag_id = ''t1'', tag_name = ''Mom'', groupId = Some ''g1'', isTimeTag = None\<rparr>] \<noteq> [] \<and>
   generateUniqueFileName 0 [\<lparr>tag_id = ''t1'', tag_name = ''Mom'', groupId = Some ''g1'', isTimeTag = None\<rparr>]
      [''Mom'', ''Mom_1''] = (''Mom_2'', [''Mom'', ''Mom_1'', ''Mom_2'']) \<and>
   has [''Mom'', ''Mom_1''] (baseFileNameOf [\<lparr>tag_id = ''t1'', tag_name = ''Mom'', groupId = Some ''g1'', isTimeTag = None\<rparr>]) \<and>
   \<not> has [''Mom'', ''Mom_1''] ''Mom_2'' \<and>
   (\<exists>k\<ge>1. ''Mom_2'' = suffixed ''Mom'' k \<and> (\<forall>j. 1 \<le> j \<and> j < k \<longrightarrow> has [''Mom'', ''Mom_1''] (suffixed ''Mom'' j))) \<and>
   (let (n1, u1) = generateUniqueFileName 5 [\<lparr>tag_id = ''t1'', tag_name = ''Mom'', groupId = Some ''g1'', isTimeTag = None\<rparr>] [];
        (n2, u2) = generateUniqueFileName 6 [\<lparr>tag_id = ''t1'', tag_name = ''Mom'', groupId = Some ''g1'', isTimeTag = None\<rparr>] u1;
        (n3, u3) = generateUniqueFileName 7 [\<lparr>tag_id = ''t1'', tag_name = ''Mom'', groupId = Some ''g1'', isTimeTag = None\<rparr>] u2
    in [n1, n2, n3]) = [''Mom'', ''Mom_1'', ''Mom_2'']"
proof -
  let ?m = "\<lparr>tag_id = ''t1'', tag_name = ''Mom'', groupId = Some ''g1'', isTimeTag = None\<rparr>"
  have e: "generateUniqueFileName 0 [?m] [''Mom'', ''Mom_1''] = (''Mom_2'', [''Mom'', ''Mom_1'', ''Mom_2''])"
    by (simp add: generateUniqueFileName_def baseFileNameOf_def uniqueLoop_step uniqueLoop_keep
        has_def add_def suffixed_1 suffixed_2 Let_def)
  have b: "baseFileNameOf [?m] = ''Mom''" by (simp add: baseFileNameOf_def)
  from generateUniqueFileName_first_unused [of "[?m]" 0 "[''Mom'', ''Mom_1'']" "''Mom_2''" "[''Mom'', ''Mom_1'', ''Mom_2'']"
      "[?m]" "[?m]" "[?m]" 5 6 7] e b
  show ?thesis by (simp add: has_def del: One_nat_def)
qed

section \<open>The export pipeline: one image\<close>

lemma processImage_createdAssets:
  "processImage env i img (st, ba) = (st', ba') \<Longrightarrow>
   createdAssets st' = createdAssets st @
     (if assetCreated env i
      then [\<lparr>assetFile = tempFileOf env i img st, assetSource = uri img\<rparr>] else []) \<and>
   ba' = ba @
     (if assetCreated env i
      then [\<lparr>assetFile = tempFileOf env i img st, assetSource = uri img\<rparr>] else [])"
  by (auto simp: processImage_def Let_def assetCreated_def tempFileOf_def
      split: prod.splits creation.splits if_splits)

lemma processImage_processedCount:
  "processImage env i img (st, ba) = (st', ba') \<Longrightarrow>
   processedCount st' = processedCount st + (if counted env i then 1 else 0)"
  by (auto simp: processImage_def Let_def counted_def
      split: prod.splits creation.splits if_splits)

lemma processImage_album:
  "processImage env i img (st, ba) = (st', ba') \<Longrightarrow> album st' = album st"
  by (auto simp: processImage_def Let_def split: prod.splits creation.splits if_splits)

lemma processImage_usedNames:
  "processImage env i img (st, ba) = (st', ba') \<Longrightarrow>
   usedNames st' = snd (generateUniqueFileName (clock env i) (tags img) (usedNames st))"
  by (auto simp: processImage_def Let_def split: prod.splits creation.splits if_splits)

lemma processImage_staged:
  "processImage env i img (st, ba) = (st', ba') \<Longrightarrow>
   staged st' =
     (if \<not> copyAsync env i then staged st
      else if createAssetAsync env i \<noteq> CreateThrows \<and> deleteAsync env i
        then (staged st)(tempFileOf env i img st := None)
        else (staged st)(tempFileOf env i img st \<mapsto> uri img))"
  by (auto simp: processImage_def Let_def tempFileOf_def
      split: prod.splits creation.splits if_splits)

section \<open>The export pipeline: batches\<close>

lemma processBatch_created:
  "processBatch env s imgs (st, ba) = (st', ba') \<Longrightarrow>
   \<exists>new. createdAssets st' = createdAssets st @ new \<and> ba' = ba @ new \<and>
     map assetSource new =
       map (\<lambda>p. uri (snd p)) (filter (\<lambda>p. assetCreated env (fst p)) (enumerate s imgs))"
proof (induction imgs arbitrary: s st ba)
  case Nil
  then show ?case by simp
next
  case (Cons img imgs)
  obtain st1 ba1 where step: "processImage env s img (st, ba) = (st1, ba1)"
    by (cases "processImage env s img (st, ba)")
  with Cons.prems have rest: "processBatch env (Suc s) imgs (st1, ba1) = (st', ba')" by simp
  from Cons.IH [OF rest] obtain new where new:
    "createdAssets st' = createdAssets st1 @ new" "ba' = ba1 @ new"
    "map assetSource new =
       map (\<lambda>p. uri (snd p)) (filter (\<lambda>p. assetCreated env (fst p)) (enumerate (Suc s) imgs))"
    by blast
  let ?one = "if assetCreated env s
      then [\<lparr>assetFile = tempFileOf env s img st, assetSource = uri img\<rparr>] else []"
  from processImage_createdAssets [OF step]
  have one: "createdAssets st1 = createdAssets st @ ?one" "ba1 = ba @ ?one" by simp_all
  have "createdAssets st' = createdAssets st @ (?one @ new)" using one(1) new(1) by simp
  moreover have "ba' = ba @ (?one @ new)" using one(2) new(2) by simp
  moreover have "map assetSource (?one @ new) =
       map (\<lambda>p. uri (snd p)) (filter (\<lambda>p. assetCreated env (fst p)) (enumerate s (img # imgs)))"
    using new(3) by simp
  ultimately show ?case by blast
qed

lemma processBatch_processedCount:
  "processBatch env s imgs (st, ba) = (st', ba') \<Longrightarrow>
   processedCount st' =
     processedCount st + length (filter (\<lambda>p. counted env (fst p)) (enumerate s imgs))"
proof (induction imgs arbitrary: s st ba)
  case Nil
  then show ?case by simp
next
  case (Cons img imgs)
  obtain st1 ba1 where step: "processImage env s img (st, ba) = (st1, ba1)"
    by (cases "processImage env s img (st, ba)")
  with Cons.prems have rest: "processBatch env (Suc s) imgs (st1, ba1) = (st', ba')" by simp
  from Cons.IH [OF rest] processImage_processedCount [OF step] show ?case by simp
qed

lemma processBatch_album:
  "processBatch env s imgs (st, ba) = (st', ba') \<Longrightarrow> album st' = album st"
proof (induction imgs arbitrary: s st ba)
  case Nil
  then show ?case by simp
next
  case (Cons img imgs)
  obtain st1 ba1 where step: "processImage env s img (st, ba) = (st1, ba1)"
    by (cases "processImage env s img (st, ba)")
  with Cons.prems have rest: "processBatch env (Suc s) imgs (st1, ba1) = (st', ba')" by simp
  from Cons.IH [OF rest] processImage_album [OF step] show ?case by simp
qed

lemma attachBatch_fields:
  "createdAssets (attachBatch env b ba st) = createdAssets st"
  "processedCount (attachBatch env b ba st) = processedCount st"
  "staged (attachBatch env b ba st) = staged st"
  "usedNames (attachBatch env b ba st) = usedNames st"
  by (simp_all add: attachBatch_def)

lemma batchLoop_step:
  "b < tb \<Longrightarrow> processBatch env (b * BATCH_SIZE)
       (slice images (b * BATCH_SIZE) (min (b * BATCH_SIZE + BATCH_SIZE) (length images))) (st, [])
     = (st1, ba) \<Longrightarrow>
   batchLoop env images tb b st = batchLoop env images tb (b + 1) (attachBatch env b ba st1)"
  by (subst batchLoop.simps) (simp add: Let_def)

lemma batchLoop_done: "\<not> b < tb \<Longrightarrow> batchLoop env images tb b st = st"
  by (subst batchLoop.simps) simp

lemma slice_batch:
  "slice images (b * BATCH_SIZE) (min (b * BATCH_SIZE + BATCH_SIZE) (length images)) =
   take BATCH_SIZE (drop (b * BATCH_SIZE) images)"
proof -
  have "min (b * BATCH_SIZE + BATCH_SIZE) (length images) - b * BATCH_SIZE =
        min BATCH_SIZE (length images - b * BATCH_SIZE)" by arith
  then show ?thesis by (simp add: slice_def min_def)
qed

lemma past_last_batch: "\<not> b < totalBatchesOf images \<Longrightarrow> drop (b * BATCH_SIZE) images = []"
proof -
  assume "\<not> b < totalBatchesOf images"
  then have "(length images + 9) div 10 \<le> b" by (simp add: totalBatchesOf_def BATCH_SIZE_def)
  then have "length images \<le> b * 10" by simp
  then show ?thesis by (simp add: BATCH_SIZE_def)
qed

lemma enumerate_split:
  "enumerate s xs = enumerate s (take k xs) @ enumerate (s + k) (drop k xs)"
proof (cases "k \<le> length xs")
  case True
  have "enumerate s (take k xs @ drop k xs) =
    enumerate s (take k xs) @ enumerate (s + length (take k xs)) (drop k xs)"
    by (rule enumerate_append_eq)
  with True show ?thesis by (simp add: min_def)
next
  case False
  then show ?thesis by simp
qed

text \<open>The indexed images from batch \<open>b\<close> on, split into batch \<open>b\<close> and the rest.\<close>

lemma enumerate_batches:
  "enumerate (b * BATCH_SIZE) (drop (b * BATCH_SIZE) images) =
   enumerate (b * BATCH_SIZE) (take BATCH_SIZE (drop (b * BATCH_SIZE) images)) @
   enumerate ((b + 1) * BATCH_SIZE) (drop ((b + 1) * BATCH_SIZE) images)"
proof -
  have nb: "(b + 1) * BATCH_SIZE = b * BATCH_SIZE + BATCH_SIZE" by simp
  have "drop (b * BATCH_SIZE + BATCH_SIZE) images = drop BATCH_SIZE (drop (b * BATCH_SIZE) images)"
    by (simp add: add.commute)
  with enumerate_split [of "b * BATCH_SIZE" "drop (b * BATCH_SIZE) images" BATCH_SIZE]
  show ?thesis unfolding nb by (simp only:)
qed




lemma batch_index:
  "p \<in> set (enumerate (b * BATCH_SIZE) (take BATCH_SIZE xs)) \<Longrightarrow> fst p div BATCH_SIZE = b"
proof -
  assume "p \<in> set (enumerate (b * BATCH_SIZE) (take BATCH_SIZE xs))"
  then have "b * BATCH_SIZE \<le> fst p" and "fst p < length (take BATCH_SIZE xs) + b * BATCH_SIZE"
    by (simp_all add: in_set_enumerate_eq)
  then have "BATCH_SIZE * b \<le> fst p" and "fst p < BATCH_SIZE * Suc b"
    by (simp_all add: mult.commute min_def split: if_splits)
  then show ?thesis by (rule div_nat_eqI)
qed

lemma filter_batch_attached:
  "filter (\<lambda>p. assetCreated env (fst p) \<and> addAssetsToAlbumAsync env (fst p div BATCH_SIZE))
     (enumerate (b * BATCH_SIZE) (take BATCH_SIZE xs)) =
   (if addAssetsToAlbumAsync env b
    then filter (\<lambda>p. assetCreated env (fst p)) (enumerate (b * BATCH_SIZE) (take BATCH_SIZE xs))
    else [])"
proof (cases "addAssetsToAlbumAsync env b")
  case True
  have "filter (\<lambda>p. assetCreated env (fst p) \<and> addAssetsToAlbumAsync env (fst p div BATCH_SIZE))
     (enumerate (b * BATCH_SIZE) (take BATCH_SIZE xs)) =
     filter (\<lambda>p. assetCreated env (fst p)) (enumerate (b * BATCH_SIZE) (take BATCH_SIZE xs))"
    by (rule filter_cong) (simp_all add: batch_index True)
  with True show ?thesis by simp
next
  case False
  have "filter (\<lambda>p. assetCreated env (fst p) \<and> addAssetsToAlbumAsync env (fst p div BATCH_SIZE))
     (enumerate (b * BATCH_SIZE) (take BATCH_SIZE xs)) =
     filter (\<lambda>p. False) (enumerate (b * BATCH_SIZE) (take BATCH_SIZE xs))"
    by (rule filter_cong) (simp_all add: batch_index False)
  with False show ?thesis by simp
qed

text \<open>
  What the batch loop does from batch \<open>b\<close> on, in terms of the indexed images that are
  left: the assets it creates, the count it adds and the assets it attaches to the album.
\<close>

lemma batchLoop_effect:
  assumes "album st = Some a"
  shows "\<exists>new more.
    createdAssets (batchLoop env images (totalBatchesOf images) b st) = createdAssets st @ new \<and>
    map assetSource new = map (\<lambda>p. uri (snd p)) (filter (\<lambda>p. assetCreated env (fst p))
      (enumerate (b * BATCH_SIZE) (drop (b * BATCH_SIZE) images))) \<and>
    processedCount (batchLoop env images (totalBatchesOf images) b st) = processedCount st +
      length (filter (\<lambda>p. counted env (fst p))
        (enumerate (b * BATCH_SIZE) (drop (b * BATCH_SIZE) images))) \<and>
    album (batchLoop env images (totalBatchesOf images) b st) = Some (a @ more) \<and>
    map assetSource more = map (\<lambda>p. uri (snd p))
      (filter (\<lambda>p. assetCreated env (fst p) \<and> addAssetsToAlbumAsync env (fst p div BATCH_SIZE))
        (enumerate (b * BATCH_SIZE) (drop (b * BATCH_SIZE) images)))"
  using assms
proof (induction "totalBatchesOf images - b" arbitrary: b st a)
  case 0
  then have fin: "\<not> b < totalBatchesOf images" by simp
  from past_last_batch [OF fin] batchLoop_done [OF fin] "0.prems" show ?case by simp
next
  case (Suc n)
  let ?tb = "totalBatchesOf images"
  let ?s = "b * BATCH_SIZE"
  let ?batch = "take BATCH_SIZE (drop ?s images)"
  let ?rest = "enumerate ((b + 1) * BATCH_SIZE) (drop ((b + 1) * BATCH_SIZE) images)"
  from Suc.hyps(2) have lt: "b < ?tb" by simp
  obtain st1 ba where batch: "processBatch env ?s ?batch (st, []) = (st1, ba)"
    by (cases "processBatch env ?s ?batch (st, [])")
  from processBatch_created [OF batch] obtain new1 where new1:
    "createdAssets st1 = createdAssets st @ new1" "ba = new1"
    "map assetSource new1 = map (\<lambda>p. uri (snd p))
       (filter (\<lambda>p. assetCreated env (fst p)) (enumerate ?s ?batch))"
    by auto
  note count1 = processBatch_processedCount [OF batch]
  from processBatch_album [OF batch] Suc.prems have album1: "album st1 = Some a" by simp
  let ?att = "if addAssetsToAlbumAsync env b then new1 else []"
  let ?st2 = "attachBatch env b ba st1"
  from album1 new1(2) have album2: "album ?st2 = Some (a @ ?att)"
    by (simp add: attachBatch_def)
  have att: "map assetSource ?att = map (\<lambda>p. uri (snd p))
      (filter (\<lambda>p. assetCreated env (fst p) \<and> addAssetsToAlbumAsync env (fst p div BATCH_SIZE))
        (enumerate ?s ?batch))"
    by (simp add: filter_batch_attached new1(3))
  from Suc.hyps(2) have n: "n = ?tb - (b + 1)" by simp
  from Suc.hyps(1) [OF n album2] obtain new2 more2 where rest:
    "createdAssets (batchLoop env images ?tb (b + 1) ?st2) = createdAssets ?st2 @ new2"
    "map assetSource new2 = map (\<lambda>p. uri (snd p)) (filter (\<lambda>p. assetCreated env (fst p)) ?rest)"
    "processedCount (batchLoop env images ?tb (b + 1) ?st2) = processedCount ?st2 +
      length (filter (\<lambda>p. counted env (fst p)) ?rest)"
    "album (batchLoop env images ?tb (b + 1) ?st2) = Some ((a @ ?att) @ more2)"
    "map assetSource more2 = map (\<lambda>p. uri (snd p))
      (filter (\<lambda>p. assetCreated env (fst p) \<and> addAssetsToAlbumAsync env (fst p div BATCH_SIZE)) ?rest)"
    by blast
  from batch have "processBatch env ?s (slice images ?s (min (?s + BATCH_SIZE) (length images)))
      (st, []) = (st1, ba)" by (simp only: slice_batch)
  from batchLoop_step [OF lt this]
  have unfold: "batchLoop env images ?tb b st = batchLoop env images ?tb (b + 1) ?st2" .
  note split = enumerate_batches [of b images]
  have c: "createdAssets (batchLoop env images ?tb b st) = createdAssets st @ (new1 @ new2)"
    unfolding unfold using rest(1) new1(1) by (simp add: attachBatch_fields)
  have cs: "map assetSource (new1 @ new2) = map (\<lambda>p. uri (snd p))
      (filter (\<lambda>p. assetCreated env (fst p)) (enumerate ?s (drop ?s images)))"
    unfolding split using new1(3) rest(2) by simp
  have p: "processedCount (batchLoop env images ?tb b st) = processedCount st +
      length (filter (\<lambda>p. counted env (fst p)) (enumerate ?s (drop ?s images)))"
    unfolding unfold split using rest(3) count1 by (simp add: attachBatch_fields)
  have al: "album (batchLoop env images ?tb b st) = Some (a @ (?att @ more2))"
    unfolding unfold using rest(4) by simp
  have als: "map assetSource (?att @ more2) = map (\<lambda>p. uri (snd p))
      (filter (\<lambda>p. assetCreated env (fst p) \<and> addAssetsToAlbumAsync env (fst p div BATCH_SIZE))
        (enumerate ?s (drop ?s images)))"
    unfolding split using att rest(5) by simp
  from c cs p al als show ?case by blast
qed

section \<open>The export pipeline: whole invocations\<close>

lemma seedAlbum_Inr:
  "seedAlbum env first initialState = Inr st0 \<Longrightarrow>
   seedCopyAsync env \<and> seedCreateAssetAsync env \<and> createAlbumAsync env \<and> seedDeleteAsync env \<and>
   usedNames st0 = [] \<and> processedCount st0 = 0 \<and> staged st0 = Map.empty \<and>
   createdAssets st0 = [seedAsset env first] \<and> album st0 = Some [seedAsset env first]"
  by (auto simp: seedAlbum_def initialState_def seedAsset_def Let_def split: if_splits)

lemma seedAlbum_Inl:
  "seedAlbum env first initialState = Inl st0 \<Longrightarrow>
   \<not> (seedCopyAsync env \<and> seedCreateAssetAsync env \<and> createAlbumAsync env \<and> seedDeleteAsync env) \<and>
   usedNames st0 = [] \<and> processedCount st0 = 0 \<and>
   (album st0 = None \<or> album st0 = Some [seedAsset env first])"
  by (auto simp: seedAlbum_def initialState_def seedAsset_def Let_def split: if_splits)

text \<open>An invocation that ends with the success toast has run the batch loop.\<close>

lemma exportImages_Exported:
  assumes "exportImages env images = (Exported p t, st)"
  shows "\<exists>st0. st = batchLoop env images (totalBatchesOf images) 0 st0 \<and>
    p = processedCount st \<and> t = length images \<and> images \<noteq> [] \<and>
    requestPermissionsAsync env = Returns True \<and>
    usedNames st0 = [] \<and> processedCount st0 = 0 \<and> staged st0 = Map.empty \<and>
    createdAssets st0 = (if getAlbumAsync env = Returns None then [seedAsset env (hd images)] else []) \<and>
    album st0 = Some (case getAlbumAsync env of Returns (Some assets) \<Rightarrow> assets
                      | _ \<Rightarrow> [seedAsset env (hd images)])"
proof (cases images)
  case Nil
  with assms show ?thesis by (simp add: exportImages_def)
next
  case (Cons first rest)
  show ?thesis
  proof (cases "requestPermissionsAsync env")
    case Throws
    with assms Cons show ?thesis by (simp add: exportImages_def)
  next
    case (Returns granted)
    show ?thesis
    proof (cases granted)
      case False
      with assms Cons Returns show ?thesis by (simp add: exportImages_def)
    next
      case True
      show ?thesis
      proof (cases "getAlbumAsync env")
        case Throws
        with assms Cons Returns True show ?thesis by (simp add: exportImages_def)
      next
        case lookup: (Returns found)
        show ?thesis
        proof (cases found)
          case (Some assets)
          with assms Cons Returns True lookup
          have "runBatches env images (initialState\<lparr>album := Some assets\<rparr>) = (Exported p t, st)"
            by (simp add: exportImages_def)
          then have "st = batchLoop env images (totalBatchesOf images) 0 (initialState\<lparr>album := Some assets\<rparr>)"
            "p = processedCount st" "t = length images"
            by (auto simp: runBatches_def Let_def)
          with Cons Returns True lookup Some show ?thesis
            by (intro exI [of _ "initialState\<lparr>album := Some assets\<rparr>"]) (simp add: initialState_def)
        next
          case None
          show ?thesis
          proof (cases "seedAlbum env first initialState")
            case (Inl st0)
            with assms Cons Returns True lookup None show ?thesis by (simp add: exportImages_def)
          next
            case (Inr st0)
            with assms Cons Returns True lookup None
            have "runBatches env images st0 = (Exported p t, st)" by (simp add: exportImages_def)
            then have "st = batchLoop env images (totalBatchesOf images) 0 st0"
              "p = processedCount st" "t = length images"
              by (auto simp: runBatches_def Let_def)
            with seedAlbum_Inr [OF Inr] Cons Returns True lookup None show ?thesis
              by (intro exI [of _ st0]) simp
          qed
        qed
      qed
    qed
  qed
qed

section \<open>Running the pipeline on the sample inputs\<close>

lemma batchLoop_unfold:
  "b < tb \<Longrightarrow> batchLoop env images tb b st =
     (let startIndex = b * BATCH_SIZE;
          endIndex = min (startIndex + BATCH_SIZE) (length images);
          batchImages = slice images startIndex endIndex;
          (st1, batchAssets) = processBatch env startIndex batchImages (st, [])
      in batchLoop env images tb (b + 1) (attachBatch env b batchAssets st1))"
  by (subst batchLoop.simps) simp

lemma toString_numeral:
  "toString (numeral k) =
     (if numeral k < (10::nat) then [digitChar (numeral k)]
      else toString (numeral k div 10) @ [digitChar (numeral k mod 10)])"
  by (rule toString.simps)

lemma clock_name: "toString 1718000000000 = ''1718000000000''"
  by (simp add: toString_numeral toString_digit digitChar_def)

lemmas export_eval = exportImages_def runBatches_def totalBatchesOf_def BATCH_SIZE_def
  batchLoop_unfold batchLoop_done slice_def processImage_def attachBatch_def seedAlbum_def
  initialState_def generateUniqueFileName_def baseFileNameOf_def uniqueLoop_keep uniqueLoop_step
  has_def add_def suffixed_1 suffixed_2 Let_def allCallsSucceed_def momPhoto_def momTag_def

lemma run3: "exportImages (allCallsSucceed\<lparr>copyAsync := (\<lambda>i. i \<noteq> 1)\<rparr>)
      [momPhoto ''1'', momPhoto ''2'', momPhoto ''3''] =
   (Exported 2 3,
    \<lparr>usedNames = [''Mom'', ''Mom_1'', ''Mom_2''], staged = Map.empty,
      createdAssets =
        [\<lparr>assetFile = ''file:///cache/Mom.jpg'', assetSource = ''file:///photos/1.jpg''\<rparr>,
         \<lparr>assetFile = ''file:///cache/Mom_2.jpg'', assetSource = ''file:///photos/3.jpg''\<rparr>],
      album = Some
        [\<lparr>assetFile = ''file:///cache/Mom.jpg'', assetSource = ''file:///photos/1.jpg''\<rparr>,
         \<lparr>assetFile = ''file:///cache/Mom_2.jpg'', assetSource = ''file:///photos/3.jpg''\<rparr>],
      processedCount = 2\<rparr>)"
  by (simp add: export_eval)

lemma run1seed: "exportImages (allCallsSucceed\<lparr>getAlbumAsync := Returns None\<rparr>) [momPhoto ''1''] =
   (Exported 1 1,
    \<lparr>usedNames = [''Mom''], staged = Map.empty,
      createdAssets =
        [\<lparr>assetFile = ''file:///cache/album_init.jpg'', assetSource = ''file:///photos/1.jpg''\<rparr>,
         \<lparr>assetFile = ''file:///cache/Mom.jpg'', assetSource = ''file:///photos/1.jpg''\<rparr>],
      album = Some
        [\<lparr>assetFile = ''file:///cache/album_init.jpg'', assetSource = ''file:///photos/1.jpg''\<rparr>,
         \<lparr>assetFile = ''file:///cache/Mom.jpg'', assetSource = ''file:///photos/1.jpg''\<rparr>],
      processedCount = 1\<rparr>)"
  by (simp add: export_eval)


lemma exportImages_seeding:
  "requestPermissionsAsync env = Returns True \<Longrightarrow> getAlbumAsync env = Returns None \<Longrightarrow>
   exportImages env (first # rest) =
     (case seedAlbum env first initialState of
        Inl st \<Rightarrow> (AlbumCreationFailed, st)
      | Inr st \<Rightarrow> runBatches env (first # rest) st)"
  by (simp add: exportImages_def)






section \<open>The export pipeline: staged files\<close>

lemma processImage_staged_clean:
  "staged st = Map.empty \<Longrightarrow> released env i \<Longrightarrow> processImage env i img (st, ba) = (st', ba')
   \<Longrightarrow> staged st' = Map.empty"
  by (drule processImage_staged) (auto simp: released_def)

lemma processBatch_staged_clean:
  "staged st = Map.empty \<Longrightarrow> \<forall>i. s \<le> i \<and> i < s + length imgs \<longrightarrow> released env i \<Longrightarrow>
   processBatch env s imgs (st, ba) = (st', ba') \<Longrightarrow> staged st' = Map.empty"
proof (induction imgs arbitrary: s st ba)
  case Nil
  then show ?case by simp
next
  case (Cons img imgs)
  obtain st1 ba1 where step: "processImage env s img (st, ba) = (st1, ba1)"
    by (cases "processImage env s img (st, ba)")
  with Cons.prems have rest: "processBatch env (Suc s) imgs (st1, ba1) = (st', ba')" by simp
  from Cons.prems(2) have "released env s" by simp
  from processImage_staged_clean [OF Cons.prems(1) this step] have e: "staged st1 = Map.empty" .
  from Cons.prems(2) have "\<forall>i. Suc s \<le> i \<and> i < Suc s + length imgs \<longrightarrow> released env i" by simp
  from Cons.IH [OF e this rest] show ?case .
qed

lemma batchLoop_staged_clean:
  assumes "\<forall>i<length images. released env i"
  shows "staged st = Map.empty \<Longrightarrow>
    staged (batchLoop env images (totalBatchesOf images) b st) = Map.empty"
proof (induction "totalBatchesOf images - b" arbitrary: b st)
  case 0
  then have fin: "\<not> b < totalBatchesOf images" by simp
  from batchLoop_done [OF fin] "0.prems" show ?case by simp
next
  case (Suc n)
  let ?tb = "totalBatchesOf images"
  let ?s = "b * BATCH_SIZE"
  let ?batch = "take BATCH_SIZE (drop ?s images)"
  from Suc.hyps(2) have lt: "b < ?tb" by simp
  obtain st1 ba where batch: "processBatch env ?s ?batch (st, []) = (st1, ba)"
    by (cases "processBatch env ?s ?batch (st, [])")
  have "\<forall>i. ?s \<le> i \<and> i < ?s + length ?batch \<longrightarrow> released env i"
  proof (intro allI impI)
    fix i assume "?s \<le> i \<and> i < ?s + length ?batch"
    then have "?s \<le> i" and "i < ?s + min (length images - ?s) BATCH_SIZE" by simp_all
    then have "i < length images" by arith
    with assms show "released env i" by simp
  qed
  from processBatch_staged_clean [OF Suc.prems this batch] have e: "staged st1 = Map.empty" .
  from batch have "processBatch env ?s (slice images ?s (min (?s + BATCH_SIZE) (length images)))
      (st, []) = (st1, ba)" by (simp only: slice_batch)
  from batchLoop_step [OF lt this]
  have unfold: "batchLoop env images ?tb b st = batchLoop env images ?tb (b + 1) (attachBatch env b ba st1)" .
  from Suc.hyps(2) have n: "n = ?tb - (b + 1)" by simp
  from e have "staged (attachBatch env b ba st1) = Map.empty" by (simp add: attachBatch_fields)
  from Suc.hyps(1) [OF n this] show ?case unfolding unfold .
qed
text \<open>
  Claim C3, as the code has it. Processing an image leaves the staged files as they were
  when the copy fails, removes the image's temporary file when the copy, the asset creation
  and the deletion succeed, and leaves the temporary file in place when the asset creation
  throws. An invocation in which every copied image reaches a successful deletion ends with
  no staged file.
\<close>

theorem processImage_releases_after_success:
  "(processImage env i img (st, batchAssets) = (st', batchAssets') \<longrightarrow>
      (\<not> copyAsync env i \<longrightarrow> staged st' = staged st) \<and>
      (copyAsync env i \<and> createAssetAsync env i \<noteq> CreateThrows \<and> deleteAsync env i \<longrightarrow>
         staged st' = (staged st)(tempFileOf env i img st := None)) \<and>
      (copyAsync env i \<and> createAssetAsync env i = CreateThrows \<longrightarrow>
         staged st' = (staged st)(tempFileOf env i img st \<mapsto> uri img))) \<and>
   (exportImages env images = (Exported exportedCount totalCount, final) \<and>
    (\<forall>i<length images. released env i) \<longrightarrow> staged final = Map.empty)"
proof (intro conjI impI)
  assume "processImage env i img (st, batchAssets) = (st', batchAssets')"
  note s = processImage_staged [OF this]
  {
    assume "\<not> copyAsync env i"
    with s show "staged st' = staged st" by simp
  next
    assume "copyAsync env i \<and> createAssetAsync env i \<noteq> CreateThrows \<and> deleteAsync env i"
    with s show "staged st' = (staged st)(tempFileOf env i img st := None)" by simp
  next
    assume "copyAsync env i \<and> createAssetAsync env i = CreateThrows"
    with s show "staged st' = (staged st)(tempFileOf env i img st \<mapsto> uri img)" by simp
  }
next
  assume h: "exportImages env images = (Exported exportedCount totalCount, final) \<and>
    (\<forall>i<length images. released env i)"
  then have run: "exportImages env images = (Exported exportedCount totalCount, final)"
    and clean: "\<forall>i<length images. released env i" by simp_all
  from exportImages_Exported [OF run] obtain st0 where
    "final = batchLoop env images (totalBatchesOf images) 0 st0" "staged st0 = Map.empty"
    by blast
  with batchLoop_staged_clean [OF clean, of st0 0] show "staged final = Map.empty" by simp
qed

theorem processImage_releases_after_success_witness:
  "staged (fst (processImage (allCallsSucceed\<lparr>copyAsync := (\<lambda>i. i \<noteq> 1)\<rparr>) 0 (momPhoto ''1'')
     (initialState, []))) = Map.empty \<and>
   staged (snd (exportImages (allCallsSucceed\<lparr>copyAsync := (\<lambda>i. i \<noteq> 1)\<rparr>)
      [momPhoto ''1'', momPhoto ''2'', momPhoto ''3''])) = Map.empty"
proof -
  let ?env = "allCallsSucceed\<lparr>copyAsync := (\<lambda>i. i \<noteq> 1)\<rparr>"
  let ?images = "[momPhoto ''1'', momPhoto ''2'', momPhoto ''3'']"
  let ?step = "processImage ?env 0 (momPhoto ''1'') (initialState, [])"
  have step: "?step = (fst ?step, snd ?step)" by simp
  have ok: "copyAsync ?env 0 \<and> createAssetAsync ?env 0 \<noteq> CreateThrows \<and> deleteAsync ?env 0"
    by (simp add: allCallsSucceed_def)
  have rel: "\<forall>i<length ?images. released ?env i"
    by (simp add: released_def allCallsSucceed_def)
  note t = processImage_releases_after_success [of ?env 0 "momPhoto ''1''" initialState "[]" "fst ?step" "snd ?step"
      ?images 2 3 "snd (exportImages ?env ?images)"]
  from t [THEN conjunct1, THEN mp, OF step, THEN conjunct2, THEN conjunct1, THEN mp, OF ok]
  have one: "staged (fst ?step) = Map.empty" by (simp add: initialState_def)
  have "exportImages ?env ?images = (Exported 2 3, snd (exportImages ?env ?images))"
    by (simp only: run3 snd_conv)
  with t [THEN conjunct2] rel have all: "staged (snd (exportImages ?env ?images)) = Map.empty"
    by blast
  from one all show ?thesis by (rule conjI)
qed

text \<open>
  Claim C3 as stated fails: when \<^verbatim>\<open>createAssetAsync\<close> throws for the only image, the export
  ends with the image's temporary file still staged.
\<close>

theorem exportImages_leaves_staged_file:
  "fst (exportImages (allCallsSucceed\<lparr>createAssetAsync := (\<lambda>i. CreateThrows)\<rparr>) [momPhoto ''1''])
     = Exported 0 1 \<and>
   staged (snd (exportImages (allCallsSucceed\<lparr>createAssetAsync := (\<lambda>i. CreateThrows)\<rparr>)
     [momPhoto ''1''])) ''file:///cache/Mom.jpg'' = Some ''file:///photos/1.jpg''"
  by (simp add: export_eval)

section \<open>The export pipeline: creating the album\<close>

text \<open>
  Claim C4, as the code has it. When the album does not exist, it is created from
  \<^verbatim>\<open>images[0]\<close>. The export reports the album creation failure exactly when one of the
  four calls of that step fails, and then no image has been named or counted. When the
  copy, the asset creation and the album creation succeed, the album starts with the asset
  made from \<^verbatim>\<open>images[0]\<close>.
\<close>

theorem exportImages_seeds_album_from_first_image:
  "requestPermissionsAsync env = Returns True \<and> getAlbumAsync env = Returns None \<longrightarrow>
     (fst (exportImages env (first # rest)) = AlbumCreationFailed) =
       (\<not> (seedCopyAsync env \<and> seedCreateAssetAsync env \<and> createAlbumAsync env \<and>
           seedDeleteAsync env)) \<and>
     (fst (exportImages env (first # rest)) = AlbumCreationFailed \<longrightarrow>
        usedNames (snd (exportImages env (first # rest))) = [] \<and>
        processedCount (snd (exportImages env (first # rest))) = 0) \<and>
     (seedCopyAsync env \<and> seedCreateAssetAsync env \<and> createAlbumAsync env \<longrightarrow>
        (\<exists>attached. album (snd (exportImages env (first # rest))) =
           Some (seedAsset env first # attached)))"
proof (rule impI)
  assume h: "requestPermissionsAsync env = Returns True \<and> getAlbumAsync env = Returns None"
  let ?r = "exportImages env (first # rest)"
  let ?ok = "seedCopyAsync env \<and> seedCreateAssetAsync env \<and> createAlbumAsync env \<and> seedDeleteAsync env"
  from h have e: "?r = (case seedAlbum env first initialState of
        Inl st \<Rightarrow> (AlbumCreationFailed, st) | Inr st \<Rightarrow> runBatches env (first # rest) st)"
    by (simp add: exportImages_seeding)
  show "(fst ?r = AlbumCreationFailed) = (\<not> ?ok) \<and>
     (fst ?r = AlbumCreationFailed \<longrightarrow> usedNames (snd ?r) = [] \<and> processedCount (snd ?r) = 0) \<and>
     (seedCopyAsync env \<and> seedCreateAssetAsync env \<and> createAlbumAsync env \<longrightarrow>
        (\<exists>attached. album (snd ?r) = Some (seedAsset env first # attached)))"
  proof (cases "seedAlbum env first initialState")
    case (Inl st0)
    from seedAlbum_Inl [OF Inl] have bad: "\<not> ?ok" and u: "usedNames st0 = []"
      and p: "processedCount st0 = 0" by simp_all
    have al: "album st0 = Some [seedAsset env first]"
      if "seedCopyAsync env \<and> seedCreateAssetAsync env \<and> createAlbumAsync env"
      using that Inl bad
      by (auto simp: seedAlbum_def initialState_def seedAsset_def Let_def split: if_splits)
    from Inl e have r: "?r = (AlbumCreationFailed, st0)" by simp
    from bad u p al show ?thesis unfolding r by auto
  next
    case (Inr st0)
    note ok = seedAlbum_Inr [OF Inr]
    from Inr e have r: "?r = runBatches env (first # rest) st0" by simp
    from ok have "album st0 = Some [seedAsset env first]" by simp
    from batchLoop_effect [OF this, of env "first # rest" 0]
    obtain more where "album (batchLoop env (first # rest) (totalBatchesOf (first # rest)) 0 st0) =
        Some ([seedAsset env first] @ more)" by blast
    with ok show ?thesis unfolding r by (simp add: runBatches_def Let_def)
  qed
qed

theorem exportImages_seeds_album_from_first_image_witness:
  "exportImages (allCallsSucceed\<lparr>getAlbumAsync := Returns None\<rparr>) [momPhoto ''1''] =
   (Exported 1 1,
    \<lparr>usedNames = [''Mom''], staged = Map.empty,
      createdAssets =
        [\<lparr>assetFile = ''file:///cache/album_init.jpg'', assetSource = ''file:///photos/1.jpg''\<rparr>,
         \<lparr>assetFile = ''file:///cache/Mom.jpg'', assetSource = ''file:///photos/1.jpg''\<rparr>],
      album = Some
        [\<lparr>assetFile = ''file:///cache/album_init.jpg'', assetSource = ''file:///photos/1.jpg''\<rparr>,
         \<lparr>assetFile = ''file:///cache/Mom.jpg'', assetSource = ''file:///photos/1.jpg''\<rparr>],
      processedCount = 1\<rparr>) \<and>
   fst (exportImages (allCallsSucceed\<lparr>getAlbumAsync := Returns None, seedCreateAssetAsync := False\<rparr>)
     [momPhoto ''1'']) = AlbumCreationFailed \<and>
   processedCount (snd (exportImages
     (allCallsSucceed\<lparr>getAlbumAsync := Returns None, seedCreateAssetAsync := False\<rparr>)
     [momPhoto ''1''])) = 0"
proof -
  let ?bad = "allCallsSucceed\<lparr>getAlbumAsync := Returns None, seedCreateAssetAsync := False\<rparr>"
  have h: "requestPermissionsAsync ?bad = Returns True \<and> getAlbumAsync ?bad = Returns None"
    by (simp add: allCallsSucceed_def)
  have f: "\<not> (seedCopyAsync ?bad \<and> seedCreateAssetAsync ?bad \<and> createAlbumAsync ?bad \<and>
           seedDeleteAsync ?bad)" by simp
  note t = exportImages_seeds_album_from_first_image [of ?bad "momPhoto ''1''" "[]", THEN mp, OF h]
  from t [THEN conjunct1] f have a: "fst (exportImages ?bad [momPhoto ''1'']) = AlbumCreationFailed"
    by blast
  from t [THEN conjunct2, THEN conjunct1, THEN mp, OF a]
  have p: "processedCount (snd (exportImages ?bad [momPhoto ''1''])) = 0" by (rule conjunct2)
  from run1seed a p show ?thesis by - (intro conjI; assumption)
qed

text \<open>
  Claim C4 as stated fails: the first image cannot be copied, the second can, and the export
  reports the album creation failure without trying the second.
\<close>

theorem exportImages_aborts_when_first_image_fails:
  "copyAsync (allCallsSucceed\<lparr>getAlbumAsync := Returns None, seedCopyAsync := False,
      copyAsync := (\<lambda>i. 0 < i)\<rparr>) 1 \<and>
   exportImages (allCallsSucceed\<lparr>getAlbumAsync := Returns None, seedCopyAsync := False,
      copyAsync := (\<lambda>i. 0 < i)\<rparr>) [momPhoto ''1'', momPhoto ''2'']
     = (AlbumCreationFailed, initialState)"
  by (simp add: export_eval)




section \<open>Unique file names: what the set records\<close>

lemma generateUniqueFileName_tagged:
  "ts \<noteq> [] \<Longrightarrow> generateUniqueFileName now ts used =
     (uniqueLoop used (baseFileNameOf ts) (baseFileNameOf ts) 1,
      add used (uniqueLoop used (baseFileNameOf ts) (baseFileNameOf ts) 1))"
  by (simp add: generateUniqueFileName_def Let_def)

lemma generateUniqueFileName_untagged:
  "generateUniqueFileName now [] used = (''image_'' @ toString now, used)"
  by (simp add: generateUniqueFileName_def)

lemma generateUniqueFileName_grows: "set used \<subseteq> set (snd (generateUniqueFileName now ts used))"
  by (cases "ts = []") (auto simp: generateUniqueFileName_tagged generateUniqueFileName_untagged add_def)

lemma has_add: "has (add used x) x"
  by (simp add: has_def add_def)

text \<open>
  Claim C2, as the code has it. For an image with tags the returned name was not in the
  used-name set, is in the set the call leaves, and does not depend on the clock; the set
  only grows, so two calls for images with tags in one invocation return different names.
  For an image without tags the call returns \<open>image_\<close> followed by the clock reading and
  leaves the set as it was.
\<close>

theorem generateUniqueFileName_records_tagged_names:
  "(ts \<noteq> [] \<longrightarrow>
      \<not> has used (fst (generateUniqueFileName now ts used)) \<and>
      has (snd (generateUniqueFileName now ts used)) (fst (generateUniqueFileName now ts used)) \<and>
      generateUniqueFileName now' ts used = generateUniqueFileName now ts used) \<and>
   set used \<subseteq> set (snd (generateUniqueFileName now ts used)) \<and>
   (ts1 \<noteq> [] \<and> ts2 \<noteq> [] \<and> set (snd (generateUniqueFileName now1 ts1 used1)) \<subseteq> set used2 \<longrightarrow>
      fst (generateUniqueFileName now1 ts1 used1) \<noteq> fst (generateUniqueFileName now2 ts2 used2)) \<and>
   generateUniqueFileName now [] used = (''image_'' @ toString now, used)"
proof -
  have tagged: "\<not> has used (fst (generateUniqueFileName now ts used)) \<and>
      has (snd (generateUniqueFileName now ts used)) (fst (generateUniqueFileName now ts used)) \<and>
      generateUniqueFileName now' ts used = generateUniqueFileName now ts used"
    if "ts \<noteq> []" for now now' ts used
    using that by (simp add: generateUniqueFileName_tagged uniqueLoop_fresh has_add)
  have distinct: "fst (generateUniqueFileName now1 ts1 used1) \<noteq> fst (generateUniqueFileName now2 ts2 used2)"
    if h: "ts1 \<noteq> [] \<and> ts2 \<noteq> [] \<and> set (snd (generateUniqueFileName now1 ts1 used1)) \<subseteq> set used2"
  proof
    assume e: "fst (generateUniqueFileName now1 ts1 used1) = fst (generateUniqueFileName now2 ts2 used2)"
    from h tagged [of ts1 used1 now1] have "fst (generateUniqueFileName now1 ts1 used1) \<in> set used2"
      by (auto simp: has_def)
    moreover from h tagged [of ts2 used2 now2]
    have "fst (generateUniqueFileName now2 ts2 used2) \<notin> set used2" by (simp add: has_def)
    ultimately show False using e by simp
  qed
  from tagged [of ts used now now'] generateUniqueFileName_grows [of used now ts] distinct
    generateUniqueFileName_untagged [of now used]
  show ?thesis by blast
qed

theorem generateUniqueFileName_records_tagged_names_witness:
  "generateUniqueFileName 1718000000000 [momTag] [''Mom''] = (''Mom_1'', [''Mom'', ''Mom_1'']) \<and>
   \<not> has [''Mom''] ''Mom_1'' \<and> has [''Mom'', ''Mom_1''] ''Mom_1'' \<and>
   generateUniqueFileName 1718000000001 [momTag] [''Mom''] =
     generateUniqueFileName 1718000000000 [momTag] [''Mom''] \<and>
   fst (generateUniqueFileName 1718000000000 [momTag] []) \<noteq>
     fst (generateUniqueFileName 1718000000001 [momTag] [''Mom''])"
proof -
  have ne: "[momTag] \<noteq> []" by simp
  have e: "generateUniqueFileName 1718000000000 [momTag] [''Mom''] = (''Mom_1'', [''Mom'', ''Mom_1''])"
    by (simp add: export_eval)
  have sub: "set (snd (generateUniqueFileName 1718000000000 [momTag] [])) \<subseteq> set [''Mom'']"
    by (simp add: export_eval)
  note t = generateUniqueFileName_records_tagged_names [of "[momTag]" "[''Mom'']" 1718000000000 1718000000001
      "[momTag]" "[momTag]" 1718000000000 "[]" "[''Mom'']" 1718000000001]
  from t [THEN conjunct1, THEN mp, OF ne] e
  have a: "\<not> has [''Mom''] ''Mom_1''" "has [''Mom'', ''Mom_1''] ''Mom_1''"
    "generateUniqueFileName 1718000000001 [momTag] [''Mom''] =
     generateUniqueFileName 1718000000000 [momTag] [''Mom'']"
    by simp_all
  from t [THEN conjunct2, THEN conjunct2, THEN conjunct1, THEN mp] ne sub
  have d: "fst (generateUniqueFileName 1718000000000 [momTag] []) \<noteq>
     fst (generateUniqueFileName 1718000000001 [momTag] [''Mom''])" by blast
  from e a d show ?thesis by - (intro conjI; assumption)
qed

text \<open>
  Claim C2 as stated fails for images without tags: the name is not recorded, and a second
  call at the same clock reading returns the same name.
\<close>

theorem generateUniqueFileName_untagged_not_recorded:
  "generateUniqueFileName 1718000000000 [] [] = (''image_1718000000000'', []) \<and>
   generateUniqueFileName 1718000000000 [] (snd (generateUniqueFileName 1718000000000 [] []))
     = (''image_1718000000000'', [])"
  by (simp add: generateUniqueFileName_def clock_name)

section \<open>The tag selection model: time tag\<close>

lemma findIndex_none: "\<forall>x\<in>set xs. \<not> p x \<Longrightarrow> findIndex p xs = -1"
  by (induction xs) simp_all

lemma findIndex_range: "findIndex p xs = -1 \<or> (0 \<le> findIndex p xs \<and> nat (findIndex p xs) < length xs)"
  by (induction xs) (auto simp: Let_def)

lemma findIndex_some:
  "\<exists>x\<in>set xs. p x \<Longrightarrow>
   0 \<le> findIndex p xs \<and> nat (findIndex p xs) < length xs \<and> p (xs ! nat (findIndex p xs))"
proof (induction xs)
  case Nil
  then show ?case by simp
next
  case (Cons x xs)
  show ?case
  proof (cases "p x")
    case True
    then show ?thesis by simp
  next
    case False
    with Cons.prems have "\<exists>x\<in>set xs. p x" by simp
    from Cons.IH [OF this] False show ?thesis
      by (simp add: Let_def nat_add_distrib)
  qed
qed

lemma filter_single_index:
  "length (filter p xs) \<le> 1 \<Longrightarrow> i < length xs \<Longrightarrow> p (xs ! i) \<Longrightarrow> k < length xs \<Longrightarrow> p (xs ! k)
   \<Longrightarrow> i = k"
proof (induction xs arbitrary: i k)
  case Nil
  then show ?case by simp
next
  case (Cons x xs)
  show ?case
  proof (cases "p x")
    case True
    with Cons.prems(1) have e: "filter p xs = []" by simp
    have "i = 0"
    proof (rule ccontr)
      assume "i \<noteq> 0"
      then obtain j where "i = Suc j" by (cases i) auto
      with Cons.prems(2,3) have "xs ! j \<in> set (filter p xs)" by simp
      with e show False by simp
    qed
    moreover have "k = 0"
    proof (rule ccontr)
      assume "k \<noteq> 0"
      then obtain j where "k = Suc j" by (cases k) auto
      with Cons.prems(4,5) have "xs ! j \<in> set (filter p xs)" by simp
      with e show False by simp
    qed
    ultimately show ?thesis by simp
  next
    case False
    with Cons.prems(3) obtain i' where i: "i = Suc i'" by (cases i) auto
    from False Cons.prems(5) obtain k' where k: "k = Suc k'" by (cases k) auto
    from False Cons.prems i k Cons.IH [of i' k'] show ?thesis by simp
  qed
qed

lemma filter_replace_single:
  "length (filter p xs) \<le> 1 \<Longrightarrow> i < length xs \<Longrightarrow> p (xs ! i) \<Longrightarrow> p y
   \<Longrightarrow> filter p (xs[i := y]) = [y]"
proof (induction xs arbitrary: i)
  case Nil
  then show ?case by simp
next
  case (Cons x xs)
  show ?case
  proof (cases i)
    case 0
    with Cons.prems have "p x" by simp
    with Cons.prems(1) have "filter p xs = []" by simp
    with 0 Cons.prems(4) show ?thesis by simp
  next
    case (Suc j)
    with Cons.prems have j: "j < length xs" "p (xs ! j)" by simp_all
    then have "xs ! j \<in> set (filter p xs)" by simp
    then have ne: "filter p xs \<noteq> []" by (metis empty_iff empty_set)
    have nx: "\<not> p x"
    proof
      assume "p x"
      with Cons.prems(1) have "filter p xs = []" by simp
      with ne show False by simp
    qed
    with Cons.prems(1) have "length (filter p xs) \<le> 1" by simp
    from Cons.IH [OF this j Cons.prems(4)] nx Suc show ?thesis by simp
  qed
qed

lemma addTimeTag_blank: "trim (timeTag st) = [] \<Longrightarrow> addTimeTag now st = st"
  by (simp add: addTimeTag_def)

lemma addTimeTag_append:
  "trim (timeTag st) \<noteq> [] \<Longrightarrow> \<forall>t\<in>set (selectedTags st). \<not> truthy (isTimeTag t) \<Longrightarrow>
   selectedTags (addTimeTag now st) = selectedTags st @
     [\<lparr>tag_id = ''time-'' @ toString now, tag_name = timeTag st, groupId = None, isTimeTag = Some True\<rparr>]"
  by (simp add: addTimeTag_def Let_def findIndex_none)

lemma addTimeTag_replace:
  assumes "trim (timeTag st) \<noteq> []" and "exclusive (selectedTags st)"
    and "i < length (selectedTags st)" and "truthy (isTimeTag (selectedTags st ! i))"
  shows "selectedTags (addTimeTag now st) = (selectedTags st)
     [i := \<lparr>tag_id = ''time-'' @ toString now, tag_name = timeTag st, groupId = None, isTimeTag = Some True\<rparr>]"
proof -
  let ?p = "\<lambda>tag. truthy (isTimeTag tag)"
  let ?k = "findIndex ?p (selectedTags st)"
  from assms(3,4) have "\<exists>x\<in>set (selectedTags st). ?p x" using nth_mem by blast
  from findIndex_some [of "selectedTags st" ?p, OF this]
  have k: "0 \<le> ?k" "nat ?k < length (selectedTags st)" "?p (selectedTags st ! nat ?k)" by simp_all
  from assms(2) have "length (filter ?p (selectedTags st)) \<le> 1"
    by (simp add: exclusive_def timeTagsOf_def)
  from filter_single_index [of ?p, OF this assms(3,4) k(2,3)] have "i = nat ?k" .
  with assms(1) k(1) show ?thesis by (simp add: addTimeTag_def Let_def)
qed

text \<open>
  Claim C6. From a selection with at most one time tag, \<^verbatim>\<open>addTimeTag\<close> leaves a selection
  with at most one time tag. A blank input changes nothing. Otherwise the selection has
  exactly one time tag afterwards, the new one, whose name is the text as typed; it stands
  at the index of the time tag it replaces, or at the end when there was none.
\<close>

theorem addTimeTag_keeps_exclusive:
  "exclusive (selectedTags st) \<longrightarrow>
     exclusive (selectedTags (addTimeTag now st)) \<and>
     (trim (timeTag st) = [] \<longrightarrow> addTimeTag now st = st) \<and>
     (trim (timeTag st) \<noteq> [] \<longrightarrow>
        timeTagsOf (selectedTags (addTimeTag now st)) =
          [\<lparr>tag_id = ''time-'' @ toString now, tag_name = timeTag st, groupId = None,
            isTimeTag = Some True\<rparr>] \<and>
        (\<forall>i<length (selectedTags st). truthy (isTimeTag (selectedTags st ! i)) \<longrightarrow>
           selectedTags (addTimeTag now st) = (selectedTags st)
             [i := \<lparr>tag_id = ''time-'' @ toString now, tag_name = timeTag st, groupId = None,
                    isTimeTag = Some True\<rparr>]) \<and>
        ((\<forall>t\<in>set (selectedTags st). \<not> truthy (isTimeTag t)) \<longrightarrow>
           selectedTags (addTimeTag now st) = selectedTags st @
             [\<lparr>tag_id = ''time-'' @ toString now, tag_name = timeTag st, groupId = None,
               isTimeTag = Some True\<rparr>]))"
proof (rule impI)
  assume ex: "exclusive (selectedTags st)"
  let ?obj = "\<lparr>tag_id = ''time-'' @ toString now, tag_name = timeTag st, groupId = None,
            isTimeTag = Some True\<rparr>"
  let ?p = "\<lambda>tag. truthy (isTimeTag tag)"
  have one: "timeTagsOf (selectedTags (addTimeTag now st)) = [?obj]" if nb: "trim (timeTag st) \<noteq> []"
  proof (cases "\<exists>t\<in>set (selectedTags st). ?p t")
    case True
    then obtain i where i: "i < length (selectedTags st)" "?p (selectedTags st ! i)"
      by (auto simp: in_set_conv_nth)
    from ex have "length (filter ?p (selectedTags st)) \<le> 1"
      by (simp add: exclusive_def timeTagsOf_def)
    from filter_replace_single [of ?p, OF this i, of ?obj] addTimeTag_replace [OF nb ex i, of now]
    show ?thesis by (simp add: timeTagsOf_def)
  next
    case False
    then have "\<forall>t\<in>set (selectedTags st). \<not> ?p t" by simp
    from addTimeTag_append [OF nb this, of now] this show ?thesis
      by (simp add: timeTagsOf_def)
  qed
  have 1: "exclusive (selectedTags (addTimeTag now st))"
  proof (cases "trim (timeTag st) = []")
    case True
    with ex show ?thesis by (simp add: addTimeTag_blank)
  next
    case False
    from one [OF this] show ?thesis by (simp add: exclusive_def)
  qed
  have 2: "trim (timeTag st) = [] \<longrightarrow> addTimeTag now st = st"
    by (simp add: addTimeTag_blank)
  have 3: "\<forall>i<length (selectedTags st). truthy (isTimeTag (selectedTags st ! i)) \<longrightarrow>
           selectedTags (addTimeTag now st) = (selectedTags st)[i := ?obj]"
    if "trim (timeTag st) \<noteq> []"
    using addTimeTag_replace [OF that ex] by blast
  have 4: "(\<forall>t\<in>set (selectedTags st). \<not> truthy (isTimeTag t)) \<longrightarrow>
           selectedTags (addTimeTag now st) = selectedTags st @ [?obj]"
    if "trim (timeTag st) \<noteq> []"
    using addTimeTag_append [OF that] by blast
  from 1 2 one 3 4 show "exclusive (selectedTags (addTimeTag now st)) \<and>
     (trim (timeTag st) = [] \<longrightarrow> addTimeTag now st = st) \<and>
     (trim (timeTag st) \<noteq> [] \<longrightarrow>
        timeTagsOf (selectedTags (addTimeTag now st)) = [?obj] \<and>
        (\<forall>i<length (selectedTags st). truthy (isTimeTag (selectedTags st ! i)) \<longrightarrow>
           selectedTags (addTimeTag now st) = (selectedTags st)[i := ?obj]) \<and>
        ((\<forall>t\<in>set (selectedTags st). \<not> truthy (isTimeTag t)) \<longrightarrow>
           selectedTags (addTimeTag now st) = selectedTags st @ [?obj]))"
    by blast
qed


theorem addTimeTag_keeps_exclusive_witness:
  "exclusive
     [\<lparr>tag_id = ''t1'', tag_name = ''Mom'', groupId = Some ''g1'', isTimeTag = None\<rparr>,
      \<lparr>tag_id = ''time-3'', tag_name = ''2023'', groupId = None, isTimeTag = Some True\<rparr>,
      \<lparr>tag_id = ''t2'', tag_name = ''Dad'', groupId = Some ''g1'', isTimeTag = None\<rparr>] \<and>
   trim ''2024-06'' \<noteq> [] \<and>
   selectedTags (addTimeTag 7 \<lparr>tagGroups = [], selectedTags =
     [\<lparr>tag_id = ''t1'', tag_name = ''Mom'', groupId = Some ''g1'', isTimeTag = None\<rparr>,
      \<lparr>tag_id = ''time-3'', tag_name = ''2023'', groupId = None, isTimeTag = Some True\<rparr>,
      \<lparr>tag_id = ''t2'', tag_name = ''Dad'', groupId = Some ''g1'', isTimeTag = None\<rparr>],
     timeTag = ''2024-06''\<rparr>) =
     [\<lparr>tag_id = ''t1'', tag_name = ''Mom'', groupId = Some ''g1'', isTimeTag = None\<rparr>,
      \<lparr>tag_id = ''time-7'', tag_name = ''2024-06'', groupId = None, isTimeTag = Some True\<rparr>,
      \<lparr>tag_id = ''t2'', tag_name = ''Dad'', groupId = Some ''g1'', isTimeTag = None\<rparr>] \<and>
   exclusive [] \<and> trim '' '' = [] \<and>
   addTimeTag 7 \<lparr>tagGroups = [], selectedTags = [], timeTag = '' ''\<rparr> =
     \<lparr>tagGroups = [], selectedTags = [], timeTag = '' ''\<rparr>"
proof -
  let ?sel = "[\<lparr>tag_id = ''t1'', tag_name = ''Mom'', groupId = Some ''g1'', isTimeTag = None\<rparr>,
      \<lparr>tag_id = ''time-3'', tag_name = ''2023'', groupId = None, isTimeTag = Some True\<rparr>,
      \<lparr>tag_id = ''t2'', tag_name = ''Dad'', groupId = Some ''g1'', isTimeTag = None\<rparr>]"
  let ?st = "\<lparr>tagGroups = [], selectedTags = ?sel, timeTag = ''2024-06''\<rparr>"
  let ?blank = "\<lparr>tagGroups = [], selectedTags = [], timeTag = '' ''\<rparr>"
  have ex: "exclusive ?sel" by (simp add: exclusive_def timeTagsOf_def)
  have nb: "trim ''2024-06'' \<noteq> []" by (simp add: trim_def isWhiteSpace_def)
  have b: "trim '' '' = []" by (simp add: trim_def isWhiteSpace_def)
  have e0: "exclusive []" by (simp add: exclusive_def timeTagsOf_def)
  have i: "(1::nat) < length ?sel \<and> truthy (isTimeTag (?sel ! 1))" by simp
  from addTimeTag_keeps_exclusive [of ?st 7] ex nb
  have "\<forall>i<length ?sel. truthy (isTimeTag (?sel ! i)) \<longrightarrow> selectedTags (addTimeTag 7 ?st) = ?sel
     [i := \<lparr>tag_id = ''time-'' @ toString 7, tag_name = ''2024-06'', groupId = None,
            isTimeTag = Some True\<rparr>]"
    by simp
  from this [rule_format, of 1] i
  have "selectedTags (addTimeTag 7 ?st) = ?sel
     [1 := \<lparr>tag_id = ''time-'' @ toString 7, tag_name = ''2024-06'', groupId = None,
            isTimeTag = Some True\<rparr>]"
    by blast
  then have r: "selectedTags (addTimeTag 7 ?st) =
     [\<lparr>tag_id = ''t1'', tag_name = ''Mom'', groupId = Some ''g1'', isTimeTag = None\<rparr>,
      \<lparr>tag_id = ''time-7'', tag_name = ''2024-06'', groupId = None, isTimeTag = Some True\<rparr>,
      \<lparr>tag_id = ''t2'', tag_name = ''Dad'', groupId = Some ''g1'', isTimeTag = None\<rparr>]"
    by (simp add: toString_digit digitChar_def)
  from addTimeTag_keeps_exclusive [of ?blank 7] e0 b have "addTimeTag 7 ?blank = ?blank" by simp
  with ex nb r e0 b show ?thesis by blast
qed


section \<open>The tag selection model: saving\<close>

lemma mset_insertBy: "mset (insertBy c x ys) = add_mset x (mset ys)"
  by (induction ys) simp_all

lemma mset_sortBy: "mset (sortBy c xs) = mset xs"
  by (induction xs) (simp_all add: sortBy_def mset_insertBy)

lemma set_insertBy: "set (insertBy c x ys) = insert x (set ys)"
  by (induction ys) auto

lemma sorted_insertBy:
  assumes total: "\<forall>a b. c a b \<le> 0 \<or> c b a \<le> 0"
    and trans: "\<forall>a b d. c a b \<le> 0 \<and> c b d \<le> 0 \<longrightarrow> c a d \<le> 0"
  shows "sorted_wrt (\<lambda>a b. c a b \<le> 0) ys \<Longrightarrow> sorted_wrt (\<lambda>a b. c a b \<le> 0) (insertBy c x ys)"
proof (induction ys)
  case Nil
  then show ?case by simp
next
  case (Cons y ys)
  show ?case
  proof (cases "c x y \<le> 0")
    case True
    have "c x z \<le> 0" if "z \<in> set ys" for z
    proof -
      from that Cons.prems have "c y z \<le> 0" by simp
      with True trans show ?thesis by blast
    qed
    with True Cons.prems show ?thesis by simp
  next
    case False
    with total have "c y x \<le> 0" by blast
    with False Cons show ?thesis by (simp add: set_insertBy)
  qed
qed

lemma sorted_sortBy:
  assumes "\<forall>a b. c a b \<le> 0 \<or> c b a \<le> 0"
    and "\<forall>a b d. c a b \<le> 0 \<and> c b d \<le> 0 \<longrightarrow> c a d \<le> 0"
  shows "sorted_wrt (\<lambda>a b. c a b \<le> 0) (sortBy c xs)"
proof (induction xs)
  case Nil
  then show ?case by (simp add: sortBy_def)
next
  case (Cons x xs)
  from sorted_insertBy [OF assms, of "sortBy c xs" x] Cons show ?case
    by (simp add: sortBy_def)
qed

lemma compareTags_total:
  "\<forall>a b. lc a b \<le> 0 \<or> lc b a \<le> 0 \<Longrightarrow>
   \<forall>a b. compareTags lc a b \<le> 0 \<or> compareTags lc b a \<le> 0"
  by (simp add: compareTags_def)

lemma compareTags_trans:
  assumes "\<forall>a b d. lc a b \<le> 0 \<and> lc b d \<le> (0::int) \<longrightarrow> lc a d \<le> 0"
  shows "\<forall>a b d. compareTags lc a b \<le> 0 \<and> compareTags lc b d \<le> 0 \<longrightarrow> compareTags lc a d \<le> 0"
proof (intro allI impI)
  fix a b d
  assume h: "compareTags lc a b \<le> 0 \<and> compareTags lc b d \<le> 0"
  from assms have t: "lc (tag_name a) (tag_name b) \<le> 0 \<Longrightarrow> lc (tag_name b) (tag_name d) \<le> 0
    \<Longrightarrow> lc (tag_name a) (tag_name d) \<le> 0" by blast
  show "compareTags lc a d \<le> 0"
  proof (cases "truthy (isTimeTag a)"; cases "truthy (isTimeTag b)"; cases "truthy (isTimeTag d)")
  qed (use h t in \<open>simp_all add: compareTags_def\<close>)
qed

lemma codeUnitCompare_le: "(codeUnitCompare a b \<le> 0) = (a \<le> b)"
proof (cases "a < b")
  case True
  then show ?thesis by (simp add: codeUnitCompare_def)
next
  case False
  then show ?thesis by (cases "a = b") (simp_all add: codeUnitCompare_def)
qed

lemma codeUnitCompare_total: "\<forall>a b. codeUnitCompare a b \<le> 0 \<or> codeUnitCompare b a \<le> 0"
  unfolding codeUnitCompare_le by (simp add: linear)

lemma codeUnitCompare_trans: "\<forall>a b d. codeUnitCompare a b \<le> 0 \<and> codeUnitCompare b d \<le> 0 \<longrightarrow> codeUnitCompare a d \<le> 0"
  unfolding codeUnitCompare_le by (blast intro: order_trans)

text \<open>
  Claim C7. When the collation is a total and transitive ordering and the selection has at
  most one time tag, the list \<^verbatim>\<open>handleSave\<close> hands over is a rearrangement of the
  selection in which the time tag, if there is one, is element 0 and the other elements
  are in non-decreasing order of their names under the collation.
\<close>

theorem handleSave_sorted:
  "(\<forall>a b. localeCompare a b \<le> 0 \<or> localeCompare b a \<le> 0) \<and>
   (\<forall>a b d. localeCompare a b \<le> 0 \<and> localeCompare b d \<le> 0 \<longrightarrow> localeCompare a d \<le> 0) \<and>
   exclusive (selectedTags st) \<longrightarrow>
     mset (handleSave localeCompare st) = mset (selectedTags st) \<and>
     (list_ex (\<lambda>t. truthy (isTimeTag t)) (selectedTags st) \<longrightarrow>
        truthy (isTimeTag (handleSave localeCompare st ! 0)) \<and>
        sorted_wrt (\<lambda>a b. localeCompare (tag_name a) (tag_name b) \<le> 0)
          (tl (handleSave localeCompare st))) \<and>
     (\<not> list_ex (\<lambda>t. truthy (isTimeTag t)) (selectedTags st) \<longrightarrow>
        sorted_wrt (\<lambda>a b. localeCompare (tag_name a) (tag_name b) \<le> 0)
          (handleSave localeCompare st))"
proof (rule impI)
  let ?lc = localeCompare
  let ?out = "handleSave ?lc st"
  let ?p = "\<lambda>t. truthy (isTimeTag t)"
  let ?le = "\<lambda>a b. compareTags ?lc a b \<le> 0"
  let ?byName = "\<lambda>a b. ?lc (tag_name a) (tag_name b) \<le> 0"
  assume h: "(\<forall>a b. ?lc a b \<le> 0 \<or> ?lc b a \<le> 0) \<and>
   (\<forall>a b d. ?lc a b \<le> 0 \<and> ?lc b d \<le> 0 \<longrightarrow> ?lc a d \<le> 0) \<and> exclusive (selectedTags st)"
  then have total: "\<forall>a b. ?lc a b \<le> 0 \<or> ?lc b a \<le> 0"
    and trans: "\<forall>a b d. ?lc a b \<le> 0 \<and> ?lc b d \<le> 0 \<longrightarrow> ?lc a d \<le> 0"
    and ex: "exclusive (selectedTags st)" by blast+
  have perm: "mset ?out = mset (selectedTags st)"
    by (simp add: handleSave_def mset_sortBy)
  have sorted: "sorted_wrt ?le ?out"
    unfolding handleSave_def
    by (rule sorted_sortBy [OF compareTags_total [OF total] compareTags_trans [OF trans]])
  have names: "sorted_wrt ?byName xs" if "sorted_wrt ?le xs" "\<forall>t\<in>set xs. \<not> ?p t" for xs
    using that by (induction xs) (simp_all add: compareTags_def)
  from perm have "mset (filter ?p ?out) = mset (filter ?p (selectedTags st))"
    by simp
  then have "length (filter ?p ?out) = length (filter ?p (selectedTags st))"
    by (rule mset_eq_length)
  with ex have one: "length (filter ?p ?out) \<le> 1"
    by (simp add: exclusive_def timeTagsOf_def)
  from perm have sets: "set ?out = set (selectedTags st)" by (rule mset_eq_setD)
  have withTime: "?p (?out ! 0) \<and> sorted_wrt ?byName (tl ?out)"
    if "list_ex ?p (selectedTags st)"
  proof -
    from that sets obtain t where t: "t \<in> set ?out" "?p t" by (auto simp: list_ex_iff)
    then obtain x xs where out: "?out = x # xs" by (cases ?out) auto
    have px: "?p x"
    proof (rule ccontr)
      assume nx: "\<not> ?p x"
      with t out have "t \<in> set xs" by auto
      with sorted out have "compareTags ?lc x t \<le> 0" by auto
      with nx t(2) show False by (simp add: compareTags_def)
    qed
    with one out have "filter ?p xs = []" by simp
    then have "\<forall>t\<in>set xs. \<not> ?p t" by (simp add: filter_empty_conv)
    moreover from sorted out have "sorted_wrt ?le xs" by simp
    ultimately have "sorted_wrt ?byName xs" by (rule names [rotated])
    with px out show ?thesis by simp
  qed
  have noTime: "sorted_wrt ?byName ?out" if "\<not> list_ex ?p (selectedTags st)"
  proof -
    from that sets have "\<forall>t\<in>set ?out. \<not> ?p t" by (simp add: list_ex_iff)
    with sorted show ?thesis by (rule names)
  qed
  from perm withTime noTime
  show "mset ?out = mset (selectedTags st) \<and>
     (list_ex ?p (selectedTags st) \<longrightarrow> ?p (?out ! 0) \<and> sorted_wrt ?byName (tl ?out)) \<and>
     (\<not> list_ex ?p (selectedTags st) \<longrightarrow> sorted_wrt ?byName ?out)"
    by blast
qed


theorem handleSave_sorted_witness:
  "exclusive
     [\<lparr>tag_id = ''t1'', tag_name = ''Mom'', groupId = Some ''g1'', isTimeTag = None\<rparr>,
      \<lparr>tag_id = ''t2'', tag_name = ''Dad'', groupId = Some ''g1'', isTimeTag = None\<rparr>,
      \<lparr>tag_id = ''time-7'', tag_name = ''2024-06'', groupId = None, isTimeTag = Some True\<rparr>] \<and>
   handleSave codeUnitCompare
     \<lparr>tagGroups = [], selectedTags =
       [\<lparr>tag_id = ''t1'', tag_name = ''Mom'', groupId = Some ''g1'', isTimeTag = None\<rparr>,
        \<lparr>tag_id = ''t2'', tag_name = ''Dad'', groupId = Some ''g1'', isTimeTag = None\<rparr>,
        \<lparr>tag_id = ''time-7'', tag_name = ''2024-06'', groupId = None, isTimeTag = Some True\<rparr>],
       timeTag = []\<rparr> =
     [\<lparr>tag_id = ''time-7'', tag_name = ''2024-06'', groupId = None, isTimeTag = Some True\<rparr>,
      \<lparr>tag_id = ''t2'', tag_name = ''Dad'', groupId = Some ''g1'', isTimeTag = None\<rparr>,
      \<lparr>tag_id = ''t1'', tag_name = ''Mom'', groupId = Some ''g1'', isTimeTag = None\<rparr>] \<and>
   sorted_wrt (\<lambda>a b. codeUnitCompare (tag_name a) (tag_name b) \<le> 0)
     (tl (handleSave codeUnitCompare
       \<lparr>tagGroups = [], selectedTags =
         [\<lparr>tag_id = ''t1'', tag_name = ''Mom'', groupId = Some ''g1'', isTimeTag = None\<rparr>,
          \<lparr>tag_id = ''t2'', tag_name = ''Dad'', groupId = Some ''g1'', isTimeTag = None\<rparr>,
          \<lparr>tag_id = ''time-7'', tag_name = ''2024-06'', groupId = None, isTimeTag = Some True\<rparr>],
         timeTag = []\<rparr>))"
proof -
  let ?sel = "[\<lparr>tag_id = ''t1'', tag_name = ''Mom'', groupId = Some ''g1'', isTimeTag = None\<rparr>,
      \<lparr>tag_id = ''t2'', tag_name = ''Dad'', groupId = Some ''g1'', isTimeTag = None\<rparr>,
      \<lparr>tag_id = ''time-7'', tag_name = ''2024-06'', groupId = None, isTimeTag = Some True\<rparr>]"
  let ?st = "\<lparr>tagGroups = [], selectedTags = ?sel, timeTag = []\<rparr>"
  have ex: "exclusive ?sel" by (simp add: exclusive_def timeTagsOf_def)
  have out: "handleSave codeUnitCompare ?st =
     [\<lparr>tag_id = ''time-7'', tag_name = ''2024-06'', groupId = None, isTimeTag = Some True\<rparr>,
      \<lparr>tag_id = ''t2'', tag_name = ''Dad'', groupId = Some ''g1'', isTimeTag = None\<rparr>,
      \<lparr>tag_id = ''t1'', tag_name = ''Mom'', groupId = Some ''g1'', isTimeTag = None\<rparr>]"
    by (simp add: handleSave_def sortBy_def compareTags_def codeUnitCompare_def)
  have sel: "selectedTags ?st = ?sel" by simp
  have hyp: "(\<forall>a b. codeUnitCompare a b \<le> 0 \<or> codeUnitCompare b a \<le> 0) \<and>
    (\<forall>a b d. codeUnitCompare a b \<le> 0 \<and> codeUnitCompare b d \<le> 0 \<longrightarrow> codeUnitCompare a d \<le> 0) \<and>
    exclusive (selectedTags ?st)"
    unfolding sel by (rule conjI [OF codeUnitCompare_total conjI [OF codeUnitCompare_trans ex]])
  have present: "list_ex (\<lambda>t. truthy (isTimeTag t)) (selectedTags ?st)" by simp
  note c = handleSave_sorted [of codeUnitCompare ?st, THEN mp, OF hyp]
  from c [THEN conjunct2, THEN conjunct1, THEN mp, OF present]
  have "sorted_wrt (\<lambda>a b. codeUnitCompare (tag_name a) (tag_name b) \<le> 0) (tl (handleSave codeUnitCompare ?st))"
    by (rule conjunct2)
  with ex out show ?thesis by - (intro conjI; assumption)
qed


section \<open>The tag selection model: toggling\<close>

lemma toggleTag_selected:
  "list_ex (\<lambda>s. tag_id s = i) (selectedTags (toggleTag gid t st)) =
     (if tag_id t = i then \<not> list_ex (\<lambda>s. tag_id s = i) (selectedTags st)
      else list_ex (\<lambda>s. tag_id s = i) (selectedTags st))"
  by (auto simp: toggleTag_def Let_def list_ex_iff)

lemma toggle_sequence:
  "\<forall>c\<in>set calls. tag_id (snd c) = i \<Longrightarrow>
   list_ex (\<lambda>s. tag_id s = i) (selectedTags (foldl (\<lambda>s c. toggleTag (fst c) (snd c) s) st calls)) =
     (list_ex (\<lambda>s. tag_id s = i) (selectedTags st) \<noteq> odd (length calls))"
proof (induction calls arbitrary: st)
  case Nil
  then show ?case by simp
next
  case (Cons c calls)
  from Cons.prems have c: "tag_id (snd c) = i" and r: "\<forall>c\<in>set calls. tag_id (snd c) = i"
    by simp_all
  show ?case
    using Cons.IH [OF r, of "toggleTag (fst c) (snd c) st"] c
    by (simp add: toggleTag_selected)
qed

text \<open>
  Claim C8. After any sequence of \<^verbatim>\<open>toggleTag\<close> calls whose tags all have the id \<open>i\<close>, a tag
  with id \<open>i\<close> is selected exactly when it was selected at the start and the sequence has
  even length, or it was not and the sequence has odd length. One call removes the tags
  with that id when one is selected, and otherwise appends the tag with \<^verbatim>\<open>groupId\<close> set.
\<close>

theorem toggleTag_parity:
  "((\<forall>c\<in>set calls. tag_id (snd c) = i) \<longrightarrow>
      list_ex (\<lambda>s. tag_id s = i)
        (selectedTags (foldl (\<lambda>s c. toggleTag (fst c) (snd c) s) st calls)) =
      (list_ex (\<lambda>s. tag_id s = i) (selectedTags st) \<noteq> odd (length calls))) \<and>
   selectedTags (toggleTag gid t st) =
     (if list_ex (\<lambda>s. tag_id s = tag_id t) (selectedTags st)
      then filter (\<lambda>s. tag_id s \<noteq> tag_id t) (selectedTags st)
      else selectedTags st @ [t\<lparr>groupId := Some gid\<rparr>])"
  using toggle_sequence [of calls i st] by (simp add: toggleTag_def Let_def)

theorem toggleTag_parity_witness:
  "\<not> list_ex (\<lambda>s. tag_id s = ''t1'') (selectedTags \<lparr>tagGroups = [], selectedTags = [], timeTag = []\<rparr>) \<and>
   list_ex (\<lambda>s. tag_id s = ''t1'')
     (selectedTags (foldl (\<lambda>s c. toggleTag (fst c) (snd c) s)
        \<lparr>tagGroups = [], selectedTags = [], timeTag = []\<rparr>
        [(''g1'', \<lparr>tag_id = ''t1'', tag_name = ''Mom'', groupId = None, isTimeTag = None\<rparr>),
         (''g1'', \<lparr>tag_id = ''t1'', tag_name = ''Mom'', groupId = None, isTimeTag = None\<rparr>),
         (''g1'', \<lparr>tag_id = ''t1'', tag_name = ''Mom'', groupId = None, isTimeTag = None\<rparr>)])) \<and>
   selectedTags (toggleTag ''g1'' \<lparr>tag_id = ''t1'', tag_name = ''Mom'', groupId = None, isTimeTag = None\<rparr>
     \<lparr>tagGroups = [], selectedTags = [], timeTag = []\<rparr>) =
     [\<lparr>tag_id = ''t1'', tag_name = ''Mom'', groupId = Some ''g1'', isTimeTag = None\<rparr>]"
  using toggleTag_parity [of "[(''g1'', \<lparr>tag_id = ''t1'', tag_name = ''Mom'', groupId = None, isTimeTag = None\<rparr>),
               (''g1'', \<lparr>tag_id = ''t1'', tag_name = ''Mom'', groupId = None, isTimeTag = None\<rparr>),
               (''g1'', \<lparr>tag_id = ''t1'', tag_name = ''Mom'', groupId = None, isTimeTag = None\<rparr>)]"
      "''t1''" "\<lparr>tagGroups = [], selectedTags = [], timeTag = []\<rparr>" "''g1''"
      "\<lparr>tag_id = ''t1'', tag_name = ''Mom'', groupId = None, isTimeTag = None\<rparr>"]
  by simp


section \<open>Deleting a catalog tag\<close>

text \<open>
  Claim C9, as the code has it. A confirmed \<^verbatim>\<open>deleteTag\<close> removes from the selection the
  tags whose id is the deleted one and keeps every other selected tag, in order; no tag of
  the group is left selected when the deleted tag was the only selected tag of that group.
  The persisted images are not touched.
\<close>

theorem deleteTag_removes_by_id:
  "deleteTag True writeOk gid tagId (st, store) = (st', store') \<longrightarrow>
     selectedTags st' = filter (\<lambda>tag. tag_id tag \<noteq> tagId) (selectedTags st) \<and>
     \<not> list_ex (\<lambda>tag. tag_id tag = tagId) (selectedTags st') \<and>
     ((\<forall>tag\<in>set (selectedTags st). groupId tag = Some gid \<longrightarrow> tag_id tag = tagId) \<longrightarrow>
        \<not> list_ex (\<lambda>tag. groupId tag = Some gid) (selectedTags st')) \<and>
     images_doc store' = images_doc store"
proof (rule impI)
  assume run: "deleteTag True writeOk gid tagId (st, store) = (st', store')"
  then have sel: "selectedTags st' = filter (\<lambda>tag. tag_id tag \<noteq> tagId) (selectedTags st)"
    by (auto simp: deleteTag_def saveTagGroups_def Let_def split: if_splits)
  from run have docs: "images_doc store' = images_doc store"
    by (auto simp: deleteTag_def saveTagGroups_def Let_def split: if_splits)
  have gone: "\<not> list_ex (\<lambda>tag. tag_id tag = tagId) (selectedTags st')"
    unfolding sel by (simp add: list_ex_iff)
  have group: "\<not> list_ex (\<lambda>tag. groupId tag = Some gid) (selectedTags st')"
    if "\<forall>tag\<in>set (selectedTags st). groupId tag = Some gid \<longrightarrow> tag_id tag = tagId"
    unfolding sel using that by (auto simp: list_ex_iff)
  from sel gone group docs
  show "selectedTags st' = filter (\<lambda>tag. tag_id tag \<noteq> tagId) (selectedTags st) \<and>
     \<not> list_ex (\<lambda>tag. tag_id tag = tagId) (selectedTags st') \<and>
     ((\<forall>tag\<in>set (selectedTags st). groupId tag = Some gid \<longrightarrow> tag_id tag = tagId) \<longrightarrow>
        \<not> list_ex (\<lambda>tag. groupId tag = Some gid) (selectedTags st')) \<and>
     images_doc store' = images_doc store"
    by blast
qed

theorem deleteTag_removes_by_id_witness:
  "deleteTag True True ''g1'' ''t1''
     (\<lparr>tagGroups = [\<lparr>group_id = ''g1'', group_name = ''Family'', group_tags =
          [\<lparr>tag_id = ''t1'', tag_name = ''Mom'', groupId = None, isTimeTag = None\<rparr>]\<rparr>],
        selectedTags =
          [\<lparr>tag_id = ''t1'', tag_name = ''Mom'', groupId = Some ''g1'', isTimeTag = None\<rparr>,
           \<lparr>tag_id = ''t9'', tag_name = ''Beach'', groupId = Some ''g2'', isTimeTag = None\<rparr>],
        timeTag = []\<rparr>,
      \<lparr>images_doc = [\<lparr>image_id = ''1'', uri = ''file:///a.jpg'', tags =
          [\<lparr>tag_id = ''t1'', tag_name = ''Mom'', groupId = Some ''g1'', isTimeTag = None\<rparr>]\<rparr>],
        tagGroups_doc = [\<lparr>group_id = ''g1'', group_name = ''Family'', group_tags =
          [\<lparr>tag_id = ''t1'', tag_name = ''Mom'', groupId = None, isTimeTag = None\<rparr>]\<rparr>]\<rparr>) =
   (\<lparr>tagGroups = [\<lparr>group_id = ''g1'', group_name = ''Family'', group_tags = []\<rparr>],
      selectedTags =
          [\<lparr>tag_id = ''t9'', tag_name = ''Beach'', groupId = Some ''g2'', isTimeTag = None\<rparr>],
      timeTag = []\<rparr>,
    \<lparr>images_doc = [\<lparr>image_id = ''1'', uri = ''file:///a.jpg'', tags =
          [\<lparr>tag_id = ''t1'', tag_name = ''Mom'', groupId = Some ''g1'', isTimeTag = None\<rparr>]\<rparr>],
      tagGroups_doc = [\<lparr>group_id = ''g1'', group_name = ''Family'', group_tags = []\<rparr>]\<rparr>) \<and>
   \<not> list_ex (\<lambda>tag. groupId tag = Some ''g1'')
      [\<lparr>tag_id = ''t9'', tag_name = ''Beach'', groupId = Some ''g2'', isTimeTag = None\<rparr>]"
proof -
  let ?st = "\<lparr>tagGroups = [\<lparr>group_id = ''g1'', group_name = ''Family'', group_tags =
          [\<lparr>tag_id = ''t1'', tag_name = ''Mom'', groupId = None, isTimeTag = None\<rparr>]\<rparr>],
        selectedTags =
          [\<lparr>tag_id = ''t1'', tag_name = ''Mom'', groupId = Some ''g1'', isTimeTag = None\<rparr>,
           \<lparr>tag_id = ''t9'', tag_name = ''Beach'', groupId = Some ''g2'', isTimeTag = None\<rparr>],
        timeTag = []\<rparr>"
  let ?store = "\<lparr>images_doc = [\<lparr>image_id = ''1'', uri = ''file:///a.jpg'', tags =
          [\<lparr>tag_id = ''t1'', tag_name = ''Mom'', groupId = Some ''g1'', isTimeTag = None\<rparr>]\<rparr>],
        tagGroups_doc = [\<lparr>group_id = ''g1'', group_name = ''Family'', group_tags =
          [\<lparr>tag_id = ''t1'', tag_name = ''Mom'', groupId = None, isTimeTag = None\<rparr>]\<rparr>]\<rparr>"
  have e: "deleteTag True True ''g1'' ''t1'' (?st, ?store) =
   (\<lparr>tagGroups = [\<lparr>group_id = ''g1'', group_name = ''Family'', group_tags = []\<rparr>],
      selectedTags =
          [\<lparr>tag_id = ''t9'', tag_name = ''Beach'', groupId = Some ''g2'', isTimeTag = None\<rparr>],
      timeTag = []\<rparr>,
    \<lparr>images_doc = [\<lparr>image_id = ''1'', uri = ''file:///a.jpg'', tags =
          [\<lparr>tag_id = ''t1'', tag_name = ''Mom'', groupId = Some ''g1'', isTimeTag = None\<rparr>]\<rparr>],
      tagGroups_doc = [\<lparr>group_id = ''g1'', group_name = ''Family'', group_tags = []\<rparr>]\<rparr>)"
    by (simp add: deleteTag_def saveTagGroups_def Let_def)
  from deleteTag_removes_by_id [of True "''g1''" "''t1''" ?st ?store _ _] e show ?thesis by simp
qed


text \<open>
  Claim C9 as stated fails: with two tags of group \<open>g1\<close> selected, deleting \<open>t1\<close> leaves
  \<open>t2\<close>, whose \<^verbatim>\<open>groupId\<close> is \<open>g1\<close>, selected.
\<close>

theorem deleteTag_keeps_other_tags_of_group:
  "map groupId (selectedTags (fst (deleteTag True True ''g1'' ''t1''
        (\<lparr>tagGroups = [\<lparr>group_id = ''g1'', group_name = ''Family'', group_tags =
             [\<lparr>tag_id = ''t1'', tag_name = ''Mom'', groupId = None, isTimeTag = None\<rparr>,
              \<lparr>tag_id = ''t2'', tag_name = ''Dad'', groupId = None, isTimeTag = None\<rparr>]\<rparr>],
           selectedTags =
             [\<lparr>tag_id = ''t1'', tag_name = ''Mom'', groupId = Some ''g1'', isTimeTag = None\<rparr>,
              \<lparr>tag_id = ''t2'', tag_name = ''Dad'', groupId = Some ''g1'', isTimeTag = None\<rparr>],
           timeTag = []\<rparr>,
         \<lparr>images_doc = [], tagGroups_doc = [\<lparr>group_id = ''g1'', group_name = ''Family'',
           group_tags =
             [\<lparr>tag_id = ''t1'', tag_name = ''Mom'', groupId = None, isTimeTag = None\<rparr>,
              \<lparr>tag_id = ''t2'', tag_name = ''Dad'', groupId = None, isTimeTag = None\<rparr>]\<rparr>]\<rparr>)))) =
     [Some ''g1'']"
  by (simp add: deleteTag_def saveTagGroups_def Let_def)

end
